theory Spec2Isabelle
  imports Complex_Main "HOL-Library.Word" "HOL-Library.Multiset"
begin

unbundle bit_operations_syntax

section \<open>Data model of camera\_synchronization.cpp\<close>

text \<open>
  \<open>cv::Mat\<close> is an external type.  The model keeps what the program depends on: the
  dimensions, the channel count, the pixel bytes, and the captions that \<open>putText\<close> has
  drawn (caption and anchor point, oldest first) in place of the glyph pixels.
\<close>

record Mat =
  mat_rows :: nat
  mat_cols :: nat
  mat_channels :: nat
  mat_data :: "8 word list"
  mat_text :: "(string \<times> int \<times> int) list"

text \<open>\<open>Mat()\<close>: the empty matrix.\<close>

definition Mat_empty :: Mat where
  "Mat_empty = \<lparr>mat_rows = 0, mat_cols = 0, mat_channels = 0, mat_data = [], mat_text = []\<rparr>"

text \<open>\<open>struct FrameData\<close>; the timestamp is \<open>uint64_t\<close>, the index an \<open>int\<close>.\<close>

record FrameData =
  frame :: Mat
  timestamp :: "64 word"
  cameraIndex :: int

text \<open>\<open>FrameData(f, ts, idx)\<close> and the default constructor \<open>FrameData()\<close>.\<close>

definition FrameData_of :: "Mat \<Rightarrow> 64 word \<Rightarrow> int \<Rightarrow> FrameData" where
  "FrameData_of f ts idx = \<lparr>frame = f, timestamp = ts, cameraIndex = idx\<rparr>"

definition FrameData_default :: FrameData where
  "FrameData_default = \<lparr>frame = Mat_empty, timestamp = 0, cameraIndex = - 1\<rparr>"

section \<open>OpenCV and standard-library helpers\<close>

text \<open>
  \<open>CV_8UC3\<close> and the channel count of a type code (\<open>CV_MAT_CN\<close>), \<open>Mat::zeros\<close>,
  \<open>putText\<close> (which appends the caption to what is drawn on the matrix) and
  \<open>std::to_string\<close> on \<open>uint64_t\<close> and \<open>int64_t\<close>.
\<close>

definition CV_8UC3 :: nat where
  "CV_8UC3 = 16"

definition cv_channels :: "nat \<Rightarrow> nat" where
  "cv_channels t = (t div 8) mod 512 + 1"

definition Mat_zeros :: "nat \<Rightarrow> nat \<Rightarrow> nat \<Rightarrow> Mat" where
  "Mat_zeros r c t =
     \<lparr>mat_rows = r, mat_cols = c, mat_channels = cv_channels t,
      mat_data = replicate (r * c * cv_channels t) 0, mat_text = []\<rparr>"

definition putText :: "Mat \<Rightarrow> string \<Rightarrow> int \<times> int \<Rightarrow> Mat" where
  "putText img txt org = img\<lparr>mat_text := mat_text img @ [(txt, fst org, snd org)]\<rparr>"

definition digit_char :: "nat \<Rightarrow> char" where
  "digit_char d = ''0123456789'' ! d"

function to_string_nat :: "nat \<Rightarrow> string" where
  "to_string_nat n =
     (if n < 10 then [digit_char n] else to_string_nat (n div 10) @ [digit_char (n mod 10)])"
  by pat_completeness auto
termination
  by (relation "measure id") auto

declare to_string_nat.simps [simp del]

definition to_string_int :: "int \<Rightarrow> string" where
  "to_string_int i =
     (if i < 0 then CHR ''-'' # to_string_nat (nat (- i)) else to_string_nat (nat i))"

section \<open>SafeQueue\<close>

text \<open>
  \<open>class SafeQueue\<close>: the \<open>std::queue\<close> is a list whose head is the front, and \<open>mtx\<close>
  records whether the mutex is held.  Taking a held mutex makes the caller wait, which
  is the result \<open>None\<close>; every member function releases the mutex before it returns.
  The condition variable is only ever notified, never waited on, so it has no state.
\<close>

record SafeQueue =
  q :: "FrameData list"
  mtx :: bool

definition SafeQueue_new :: SafeQueue where
  "SafeQueue_new = \<lparr>q = [], mtx = False\<rparr>"

definition lock_mutex :: "bool \<Rightarrow> bool option" where
  "lock_mutex held = (if held then None else Some True)"

definition push :: "SafeQueue \<Rightarrow> FrameData \<Rightarrow> SafeQueue option" where
  "push sq item =
     (case lock_mutex (mtx sq) of
        None \<Rightarrow> None
      | Some held \<Rightarrow> Some (sq\<lparr>q := q sq @ [item], mtx := False\<rparr>))"

text \<open>
  \<open>bool pop(FrameData& item)\<close>: the result is the returned flag, the caller's \<open>item\<close>
  after the call, and the queue after the call.
\<close>

definition pop :: "SafeQueue \<Rightarrow> FrameData \<Rightarrow> (bool \<times> FrameData \<times> SafeQueue) option" where
  "pop sq item =
     (case lock_mutex (mtx sq) of
        None \<Rightarrow> None
      | Some held \<Rightarrow>
          (if q sq = [] then Some (False, item, sq\<lparr>mtx := False\<rparr>)
           else Some (True, hd (q sq), sq\<lparr>q := tl (q sq), mtx := False\<rparr>)))"

definition empty_queue :: "SafeQueue \<Rightarrow> bool option" where
  "empty_queue sq =
     (case lock_mutex (mtx sq) of None \<Rightarrow> None | Some held \<Rightarrow> Some (q sq = []))"

text \<open>A sequence of calls on one queue, and the items its pops hand out, in order.\<close>

datatype qop = Push FrameData | Pop

fun run_ops :: "SafeQueue \<Rightarrow> qop list \<Rightarrow> (SafeQueue \<times> FrameData list) option" where
  "run_ops sq [] = Some (sq, [])"
| "run_ops sq (Push x # ops) =
     (case push sq x of None \<Rightarrow> None | Some sq' \<Rightarrow> run_ops sq' ops)"
| "run_ops sq (Pop # ops) =
     (case pop sq FrameData_default of
        None \<Rightarrow> None
      | Some (ok, item, sq') \<Rightarrow>
          (case run_ops sq' ops of
             None \<Rightarrow> None
           | Some (sq'', out) \<Rightarrow> Some (sq'', if ok then item # out else out)))"

fun pushed :: "qop list \<Rightarrow> FrameData list" where
  "pushed [] = []"
| "pushed (Push x # ops) = x # pushed ops"
| "pushed (Pop # ops) = pushed ops"

section \<open>Floating-point arithmetic of the grid dimensions\<close>

text \<open>
  \<open>DisplayFrames\<close> computes the grid dimensions in floating point:
  \<open>ceil(sqrt(numCameras))\<close> in \<open>double\<close> and \<open>ceil((float)numCameras / gridCols)\<close> in
  \<open>float\<close>.  \<open>fl_round p\<close> is IEEE 754 rounding to the nearest number with \<open>p\<close>
  significant bits, ties to the even significand; the exponent range is left unbounded,
  since every value here lies between 1 and \<open>2^31\<close>.  Conversion from \<open>int\<close>, division
  and \<open>sqrt\<close> are correctly rounded, \<open>ceil\<close> is exact.
\<close>

definition round_half_even :: "real \<Rightarrow> int" where
  "round_half_even x =
     (let f = \<lfloor>x\<rfloor>; r = x - of_int f in
      if r < 1 / 2 then f else if 1 / 2 < r then f + 1 else if even f then f else f + 1)"

definition fl_round :: "nat \<Rightarrow> real \<Rightarrow> real" where
  "fl_round p x =
     (if x = 0 then 0
      else (let e = \<lfloor>log 2 \<bar>x\<bar>\<rfloor>; u = 2 powr (of_int e - of_int (int p) + 1) in
            of_int (round_half_even (x / u)) * u))"

definition c_double :: "real \<Rightarrow> real" where
  "c_double x = fl_round 53 x"

definition c_float :: "real \<Rightarrow> real" where
  "c_float x = fl_round 24 x"

text \<open>The unit in the last place of the floating-point numbers around \<open>x\<close>.\<close>

definition ulp :: "nat \<Rightarrow> real \<Rightarrow> real" where
  "ulp p x = 2 powr (of_int \<lfloor>log 2 \<bar>x\<bar>\<rfloor> - of_int (int p) + 1)"

text \<open>\<open>int gridCols = ceil(sqrt(numCameras));\<close>\<close>

definition gridCols :: "nat \<Rightarrow> nat" where
  "gridCols numCameras = nat \<lceil>c_double (sqrt (c_double (real numCameras)))\<rceil>"

text \<open>\<open>int gridRows = ceil((float)numCameras / gridCols);\<close>\<close>

definition gridRows :: "nat \<Rightarrow> nat" where
  "gridRows numCameras =
     nat \<lceil>c_float (c_float (real numCameras) / c_float (real (gridCols numCameras)))\<rceil>"

section \<open>The producer and display threads\<close>

text \<open>
  What the camera driver delivers in one iteration of \<open>AcquireImages\<close>.  The driver
  reports a timeout of \<open>GetNextImage(1000)\<close> and every other failure of the trigger,
  the acquisition or the conversion by throwing \<open>Spinnaker::Exception\<close>; an image can
  arrive incomplete; a complete image carries its timestamp and, after conversion and
  \<open>resize\<close>, the bytes of a 640 x 480 BGR frame.  The last field of \<open>Incomplete\<close> and
  of \<open>Complete\<close> is the exception of \<open>pResultImage->Release()\<close>, if it throws.  The
  OpenCV calls are taken to succeed.
\<close>

datatype capture =
    Timeout string
  | DriverException string
  | Incomplete "string option"
  | Complete "64 word" "8 word list" "string option"

text \<open>
  Where a thread stands: at its \<open>while (isRunning)\<close> test, inside the loop body, or
  returned.  \<open>SCollect i\<close> is the \<open>for\<close> loop of \<open>DisplayFrames\<close> about to test
  \<open>i < numCameras\<close>.
\<close>

datatype pstate = PCheck | PBody | PExit

datatype sstate = SCheck | SCollect nat | SExit

text \<open>
  The shared state of the threads (\<open>frameQueues\<close>, \<open>isRunning\<close>), the locals of
  \<open>DisplayFrames\<close> that outlive an iteration, the outputs (console lines, the grids
  handed to \<open>imshow\<close> as rows of cells, the number of 1 ms sleeps), and four
  instrumentation fields that the program does not have: every item pushed so far
  (\<open>produced\<close>), the items popped in the running collection attempt (\<open>got\<close>), the items
  of every completed attempt (\<open>framesets\<close>) and of every abandoned attempt
  (\<open>dropped\<close>).
\<close>

record sys =
  frameQueues :: "SafeQueue list"
  isRunning :: bool
  producers :: "pstate list"
  display :: sstate
  latestFrames :: "Mat list"
  latestTimestamps :: "64 word list"
  console :: "string list"
  shown :: "Mat list list list"
  sleeps :: nat
  produced :: "FrameData list"
  got :: "FrameData list"
  framesets :: "FrameData list list"
  dropped :: "FrameData list list"

text \<open>
  The state when the threads are started: \<open>numCameras\<close> empty queues, the flag set,
  \<open>latestFrames\<close> and \<open>latestTimestamps\<close> value-initialised.
\<close>

definition init_sys :: "nat \<Rightarrow> sys" where
  "init_sys numCameras =
     \<lparr>frameQueues = replicate numCameras SafeQueue_new, isRunning = True,
      producers = replicate numCameras PCheck, display = SCheck,
      latestFrames = replicate numCameras Mat_empty,
      latestTimestamps = replicate numCameras 0,
      console = [], shown = [], sleeps = 0,
      produced = [], got = [], framesets = [], dropped = []\<rparr>"

subsection \<open>AcquireImages\<close>

definition resized_frame :: "8 word list \<Rightarrow> Mat" where
  "resized_frame pix =
     \<lparr>mat_rows = 480, mat_cols = 640, mat_channels = cv_channels CV_8UC3,
      mat_data = pix, mat_text = []\<rparr>"

definition stamped_frame :: "64 word \<Rightarrow> 8 word list \<Rightarrow> Mat" where
  "stamped_frame ts pix =
     putText (resized_frame pix) (''Timestamp: '' @ to_string_nat (unat ts) @ '' ns'') (10, 30)"

definition camera_error :: "nat \<Rightarrow> string \<Rightarrow> string" where
  "camera_error camIndex what = ''Camera '' @ to_string_nat camIndex @ '' Error: '' @ what"

text \<open>
  One pass through the body of the \<open>while\<close> loop of \<open>AcquireImages\<close>; \<open>None\<close> when
  \<open>push\<close> has to wait for the mutex.
\<close>

definition acquire_body :: "nat \<Rightarrow> capture \<Rightarrow> sys \<Rightarrow> sys option" where
  "acquire_body camIndex c s =
     (case c of
        Timeout what \<Rightarrow> Some (s\<lparr>console := console s @ [camera_error camIndex what]\<rparr>)
      | DriverException what \<Rightarrow>
          Some (s\<lparr>console := console s @ [camera_error camIndex what]\<rparr>)
      | Incomplete rel \<Rightarrow>
          Some (s\<lparr>console := (case rel of
                                  None \<Rightarrow> console s
                                | Some what \<Rightarrow> console s @ [camera_error camIndex what])\<rparr>)
      | Complete ts pix rel \<Rightarrow>
          (let item = FrameData_of (stamped_frame ts pix) ts (int camIndex) in
           case push (frameQueues s ! camIndex) item of
             None \<Rightarrow> None
           | Some sq' \<Rightarrow>
               Some (s\<lparr>frameQueues := (frameQueues s)[camIndex := sq'],
                       produced := produced s @ [item],
                       console := (case rel of
                                     None \<Rightarrow> console s
                                   | Some what \<Rightarrow> console s @ [camera_error camIndex what])\<rparr>)))"

text \<open>The item that a complete capture makes \<open>AcquireImages\<close> push.\<close>

definition pushed_item :: "nat \<Rightarrow> 64 word \<Rightarrow> 8 word list \<Rightarrow> FrameData" where
  "pushed_item k ts pix = FrameData_of (stamped_frame ts pix) ts (int k)"

text \<open>
  The next atomic section of producer thread \<open>k\<close>: the loop test, or one pass through
  the body.  Threads exist for \<open>k < cameras.size()\<close> only.
\<close>

definition producer_step :: "nat \<Rightarrow> capture \<Rightarrow> sys \<Rightarrow> sys" where
  "producer_step k c s =
     (if k < length (producers s) then
        (case producers s ! k of
           PCheck \<Rightarrow>
             s\<lparr>producers := (producers s)[k := (if isRunning s then PBody else PExit)]\<rparr>
         | PBody \<Rightarrow>
             (case acquire_body k c s of
                None \<Rightarrow> s
              | Some s' \<Rightarrow> s'\<lparr>producers := (producers s')[k := PCheck]\<rparr>)
         | PExit \<Rightarrow> s)
      else s)"

subsection \<open>DisplayFrames\<close>

definition diff_caption :: "64 word \<Rightarrow> 64 word \<Rightarrow> string" where
  "diff_caption ti t0 = ''Diff with Cam0: '' @ to_string_int (sint (ti - t0)) @ '' ns''"

text \<open>The loop \<open>for (int i = 1; i < numCameras; i++)\<close> that draws the differences.\<close>

definition draw_diffs :: "nat \<Rightarrow> 64 word list \<Rightarrow> Mat list \<Rightarrow> Mat list" where
  "draw_diffs numCameras ts lf =
     (if numCameras > 1 then
        fold (\<lambda>i fs. fs[i := putText (fs ! i) (diff_caption (ts ! i) (ts ! 0)) (10, 60)])
             [1..<numCameras] lf
      else lf)"

text \<open>
  The nested loops that arrange the frames; \<open>hconcat\<close> and \<open>vconcat\<close> are kept as the
  list of rows of cells they are applied to.
\<close>

definition grid_cell :: "nat \<Rightarrow> nat \<Rightarrow> Mat list \<Rightarrow> nat \<Rightarrow> nat \<Rightarrow> Mat" where
  "grid_cell numCameras cols lf i j =
     (let idx = i * cols + j in
      if idx < numCameras then lf ! idx else Mat_zeros 480 640 CV_8UC3)"

definition arrange_grid :: "nat \<Rightarrow> nat \<Rightarrow> nat \<Rightarrow> Mat list \<Rightarrow> Mat list list" where
  "arrange_grid numCameras rws cols lf =
     map (\<lambda>i. map (\<lambda>j. grid_cell numCameras cols lf i j) [0..<cols]) [0..<rws]"

text \<open>
  The part of the loop body after a successful collection: captions, grid, \<open>imshow\<close>,
  \<open>waitKey\<close>; \<open>key\<close> is what \<open>(char)waitKey(1)\<close> yields.
\<close>

definition render_cycle :: "nat \<Rightarrow> char \<Rightarrow> sys \<Rightarrow> sys" where
  "render_cycle numCameras key s =
     (let lf = draw_diffs numCameras (latestTimestamps s) (latestFrames s);
          displayGrid = arrange_grid numCameras (gridRows numCameras) (gridCols numCameras) lf
      in s\<lparr>latestFrames := lf,
            shown := shown s @ [displayGrid],
            isRunning := (if key = CHR ''q'' \<or> key = CHR ''Q'' then False else isRunning s),
            display := SCheck,
            framesets := framesets s @ [got s],
            got := []\<rparr>)"

text \<open>
  The next atomic section of the display thread: the \<open>while\<close> test, one turn of the
  collecting \<open>for\<close> loop (a \<open>pop\<close>, and on failure the sleep and \<open>continue\<close>), or the
  rest of the body once the \<open>for\<close> loop has run to its end.
\<close>

definition display_step :: "nat \<Rightarrow> char \<Rightarrow> sys \<Rightarrow> sys" where
  "display_step numCameras key s =
     (case display s of
        SCheck \<Rightarrow> (if isRunning s then s\<lparr>display := SCollect 0\<rparr> else s\<lparr>display := SExit\<rparr>)
      | SCollect i \<Rightarrow>
          (if i < numCameras then
             (case pop (frameQueues s ! i) FrameData_default of
                None \<Rightarrow> s
              | Some (ok, frameData, sq') \<Rightarrow>
                  (if ok then
                     s\<lparr>frameQueues := (frameQueues s)[i := sq'],
                       latestFrames := (latestFrames s)[i := frame frameData],
                       latestTimestamps := (latestTimestamps s)[i := timestamp frameData],
                       display := SCollect (i + 1),
                       got := got s @ [frameData]\<rparr>
                   else
                     s\<lparr>frameQueues := (frameQueues s)[i := sq'],
                       sleeps := sleeps s + 1,
                       display := SCheck,
                       dropped := dropped s @ [got s],
                       got := []\<rparr>))
           else render_cycle numCameras key s)
      | SExit \<Rightarrow> s)"

subsection \<open>Interleavings\<close>

text \<open>
  A run of the threads is a sequence of scheduling choices, each with the input the
  chosen thread receives from outside: the capture for a producer, the key for the
  display thread.
\<close>

datatype event = Producer nat capture | Display char

fun sys_step :: "nat \<Rightarrow> event \<Rightarrow> sys \<Rightarrow> sys" where
  "sys_step numCameras (Producer k c) s = producer_step k c s"
| "sys_step numCameras (Display key) s = display_step numCameras key s"

definition run :: "nat \<Rightarrow> event list \<Rightarrow> sys \<Rightarrow> sys" where
  "run numCameras es s = fold (sys_step numCameras) es s"

section \<open>Invariants of the running threads\<close>

text \<open>
  \<open>wf_sys\<close>: one queue, one producer and one slot of \<open>latestFrames\<close> and
  \<open>latestTimestamps\<close> per camera, no mutex held between two atomic sections, and the
  index of the collecting loop within bounds.
\<close>

definition wf_sys :: "nat \<Rightarrow> sys \<Rightarrow> bool" where
  "wf_sys n s \<longleftrightarrow>
     length (frameQueues s) = n \<and> length (producers s) = n \<and>
     length (latestFrames s) = n \<and> length (latestTimestamps s) = n \<and>
     list_all (\<lambda>sq. \<not> mtx sq) (frameQueues s) \<and>
     (case display s of SCollect i \<Rightarrow> i \<le> n | _ \<Rightarrow> True)"

text \<open>
  \<open>collecting\<close>: while the \<open>for\<close> loop stands at index \<open>i\<close>, the first \<open>i\<close> slots of
  \<open>latestFrames\<close> and \<open>latestTimestamps\<close> hold the frames and timestamps of the \<open>i\<close>
  items popped in this attempt; outside the loop no popped item is pending.
\<close>

definition collecting :: "sys \<Rightarrow> bool" where
  "collecting s \<longleftrightarrow>
     (case display s of
        SCollect i \<Rightarrow>
          length (got s) = i \<and>
          map frame (got s) = take i (latestFrames s) \<and>
          map timestamp (got s) = take i (latestTimestamps s)
      | _ \<Rightarrow> got s = [])"

text \<open>\<open>indexed\<close>: the item at position \<open>j\<close> of a list comes from camera \<open>j\<close>.\<close>

definition indexed :: "FrameData list \<Rightarrow> bool" where
  "indexed xs \<longleftrightarrow> map cameraIndex xs = map int [0..<length xs]"

definition sources_ok :: "nat \<Rightarrow> sys \<Rightarrow> bool" where
  "sources_ok n s \<longleftrightarrow>
     list_all (\<lambda>i. list_all (\<lambda>x. cameraIndex x = int i) (q (frameQueues s ! i))) [0..<n] \<and>
     indexed (got s) \<and>
     list_all (\<lambda>fs. length fs = n \<and> indexed fs) (framesets s)"

text \<open>
  \<open>conserved\<close>: every item pushed so far is in exactly one place: still queued, popped
  in the running attempt, in a completed frame set, or dropped by an abandoned attempt.
\<close>

definition conserved :: "sys \<Rightarrow> bool" where
  "conserved s \<longleftrightarrow>
     mset (produced s) =
       mset (concat (map q (frameQueues s))) + mset (got s) +
       mset (concat (framesets s)) + mset (concat (dropped s))"

definition inv :: "nat \<Rightarrow> sys \<Rightarrow> bool" where
  "inv n s \<longleftrightarrow> wf_sys n s \<and> collecting s \<and> sources_ok n s \<and> conserved s"

section \<open>Measures for the shutdown argument\<close>

text \<open>How often a schedule lets producer \<open>k\<close>, or the display thread, run.\<close>

fun producer_turns :: "nat \<Rightarrow> event list \<Rightarrow> nat" where
  "producer_turns k [] = 0"
| "producer_turns k (Producer j c # es) = (if j = k then 1 else 0) + producer_turns k es"
| "producer_turns k (Display key # es) = producer_turns k es"

fun display_turns :: "event list \<Rightarrow> nat" where
  "display_turns [] = 0"
| "display_turns (Producer j c # es) = display_turns es"
| "display_turns (Display key # es) = 1 + display_turns es"

text \<open>
  How many atomic sections a thread still runs once the flag is cleared: a producer
  inside the body finishes it and then fails the test; the display thread finishes its
  collecting loop (at most \<open>numCameras - i\<close> pops and the rendering) and then fails
  the test.
\<close>

definition producer_rank :: "pstate \<Rightarrow> nat" where
  "producer_rank p = (case p of PBody \<Rightarrow> 2 | PCheck \<Rightarrow> 1 | PExit \<Rightarrow> 0)"

definition display_rank :: "nat \<Rightarrow> sstate \<Rightarrow> nat" where
  "display_rank n d = (case d of SCollect i \<Rightarrow> 2 + (n - i) | SCheck \<Rightarrow> 1 | SExit \<Rightarrow> 0)"

section \<open>Setup, lifecycle and main\<close>

text \<open>
  The Spinnaker driver is external.  A node of a camera's node map is described by
  what \<open>IsReadable\<close> and \<open>IsWritable\<close> answer and by the exception, if any, that setting
  it to a given entry raises.  A camera is described by its node map and by the
  exceptions, if any, that \<open>Init\<close>, \<open>BeginAcquisition\<close>, \<open>EndAcquisition\<close> and \<open>DeInit\<close>
  raise.
\<close>

record node =
  readable :: bool
  writable :: bool
  set_fault :: "string \<Rightarrow> string option"

type_synonym INodeMap = "string \<Rightarrow> node"

record Camera =
  init_fault :: "string option"
  GetNodeMap :: INodeMap
  begin_fault :: "string option"
  end_fault :: "string option"
  deinit_fault :: "string option"

text \<open>
  What the program does to the outside world, in the order it does it: calls into the
  driver, console lines, waiting for Enter, queue creation, thread creation and joins.
\<close>

datatype action =
    GetInstance
  | GetCameras
  | CamListClear
  | ReleaseInstance
  | Getchar
  | Cout string
  | CamInit nat
  | NodeSet nat string string
  | BeginAcquisition nat
  | EndAcquisition nat
  | DeInit nat
  | EmplaceQueue
  | SpawnProducer nat
  | SpawnDisplay nat
  | JoinDisplay
  | JoinProducer nat

text \<open>
  Code inside a \<open>try\<close> block: \<open>Inl\<close> is a thrown \<open>Spinnaker::Exception\<close> with its message
  and the actions done before it, \<open>Inr\<close> is normal completion.
\<close>

type_synonym 'a thrown = "(string \<times> action list) + 'a"

definition and_then :: "'a thrown \<Rightarrow> ('a \<Rightarrow> 'b thrown) \<Rightarrow> 'b thrown" where
  "and_then m f = (case m of Inl x \<Rightarrow> Inl x | Inr a \<Rightarrow> f a)"

text \<open>\<open>ptr->SetIntValue(ptr->GetEntryByName(entry)->GetValue())\<close> on node \<open>name\<close> of
  camera \<open>cam\<close>.\<close>

definition set_node :: "nat \<Rightarrow> INodeMap \<Rightarrow> string \<Rightarrow> string \<Rightarrow> action list \<Rightarrow> action list thrown" where
  "set_node cam nm name entry tr =
     (case set_fault (nm name) entry of
        Some what \<Rightarrow> Inl (what, tr)
      | None \<Rightarrow> Inr (tr @ [NodeSet cam name entry]))"

text \<open>The \<open>try\<close> block of \<open>ConfigureTrigger\<close>; its value is what the block returns or
  leaves in \<open>result\<close>.\<close>

definition ConfigureTrigger_try :: "nat \<Rightarrow> INodeMap \<Rightarrow> action list \<Rightarrow> (int \<times> action list) thrown" where
  "ConfigureTrigger_try cam nodeMap tr =
     and_then
       (if writable (nodeMap ''TimestampEnabled'') then
          and_then (set_node cam nodeMap ''TimestampEnabled'' ''true'' tr)
            (\<lambda>tr. Inr (tr @ [Cout ''Timestamp enabled...'']))
        else Inr tr)
       (\<lambda>tr.
          if \<not> readable (nodeMap ''TriggerMode'') then
            Inr (- 1, tr @ [Cout ''Unable to disable trigger mode (node retrieval). Aborting...''])
          else
            and_then (set_node cam nodeMap ''TriggerMode'' ''Off'' tr)
              (\<lambda>tr.
                 and_then
                   (if writable (nodeMap ''TriggerSelector'') then
                      set_node cam nodeMap ''TriggerSelector'' ''FrameStart'' tr
                    else Inr tr)
                   (\<lambda>tr.
                      and_then
                        (if writable (nodeMap ''TriggerSource'') then
                           set_node cam nodeMap ''TriggerSource'' ''Software'' tr
                         else Inr tr)
                        (\<lambda>tr.
                           and_then (set_node cam nodeMap ''TriggerMode'' ''On'' tr)
                             (\<lambda>tr.
                                Inr (0, tr @ [Cout ''Trigger configured for software trigger...'']))))))"

text \<open>\<open>int ConfigureTrigger(INodeMap& nodeMap)\<close>: the returned value and the actions.\<close>

definition ConfigureTrigger :: "nat \<Rightarrow> INodeMap \<Rightarrow> action list \<Rightarrow> int \<times> action list" where
  "ConfigureTrigger cam nodeMap tr =
     (case ConfigureTrigger_try cam nodeMap
             (tr @ [Cout [], Cout ''* CONFIGURING TRIGGER AND TIMESTAMP *'']) of
        Inl (what, tr') \<Rightarrow> (- 1, tr' @ [Cout (''Error: '' @ what)])
      | Inr (result, tr') \<Rightarrow> (result, tr'))"

text \<open>One turn of the loop \<open>// Initialize cameras\<close> of \<open>RunMultipleCameras\<close>, on the
  value of \<open>result\<close> and the actions so far.\<close>

definition setup_camera :: "nat \<Rightarrow> Camera \<Rightarrow> int \<times> action list \<Rightarrow> (int \<times> action list) thrown" where
  "setup_camera i pCam st =
     (case init_fault pCam of
        Some what \<Rightarrow> Inl (what, snd st)
      | None \<Rightarrow>
          (let (r, tr) = ConfigureTrigger i (GetNodeMap pCam) (snd st @ [CamInit i]);
               result = fst st OR r
           in and_then
                (if writable (GetNodeMap pCam ''AcquisitionMode'') then
                   set_node i (GetNodeMap pCam) ''AcquisitionMode'' ''Continuous'' tr
                 else Inr tr)
                (\<lambda>tr.
                   case begin_fault pCam of
                     Some what \<Rightarrow> Inl (what, tr)
                   | None \<Rightarrow> Inr (result, tr @ [BeginAcquisition i]))))"

fun setup_loop :: "nat \<Rightarrow> Camera list \<Rightarrow> int \<times> action list \<Rightarrow> (int \<times> action list) thrown" where
  "setup_loop i [] st = Inr st"
| "setup_loop i (pCam # cams) st = and_then (setup_camera i pCam st) (setup_loop (Suc i) cams)"

text \<open>The loop \<open>// Clean up\<close>.\<close>

fun cleanup_loop :: "nat \<Rightarrow> Camera list \<Rightarrow> action list \<Rightarrow> action list thrown" where
  "cleanup_loop i [] tr = Inr tr"
| "cleanup_loop i (cam # cams) tr =
     (case end_fault cam of
        Some what \<Rightarrow> Inl (what, tr)
      | None \<Rightarrow>
          (case deinit_fault cam of
             Some what \<Rightarrow> Inl (what, tr @ [EndAcquisition i])
           | None \<Rightarrow> cleanup_loop (Suc i) cams (tr @ [EndAcquisition i, DeInit i])))"

text \<open>
  The threads have all returned, so that every \<open>join\<close> returns.
\<close>

definition all_exited :: "sys \<Rightarrow> bool" where
  "all_exited s \<longleftrightarrow> display s = SExit \<and> list_all (\<lambda>p. p = PExit) (producers s)"

text \<open>
  The \<open>try\<close> block of \<open>RunMultipleCameras\<close> after the queues are made.  \<open>es\<close> is the
  schedule of the threads from their start; the block gets past the joins only when
  that schedule lets every thread return, and \<open>None\<close> says it does not.  The value is
  what the block throws or \<open>result\<close>, with the actions, and \<open>frameQueues\<close> at the end.
  When the setup loop completes, \<open>cameras.size()\<close> is \<open>numCameras\<close>.
\<close>

definition RunMultipleCameras_try ::
    "Camera list \<Rightarrow> event list \<Rightarrow> action list \<Rightarrow>
       ((int \<times> action list) thrown \<times> SafeQueue list) option" where
  "RunMultipleCameras_try camList es tr =
     (let numCameras = length camList in
      case setup_loop 0 camList (0, tr) of
        Inl x \<Rightarrow> Some (Inl x, replicate numCameras SafeQueue_new)
      | Inr (result, tr1) \<Rightarrow>
          (let tr2 = tr1 @ [Cout ''Press Enter to start synchronized video feeds (press 'q' to exit)...'',
                            Getchar]
                         @ map SpawnProducer [0..<numCameras] @ [SpawnDisplay numCameras];
               s = run numCameras es (init_sys numCameras)
           in if all_exited s then
                (let tr3 = tr2 @ [JoinDisplay] @ map JoinProducer [0..<numCameras] in
                 case cleanup_loop 0 camList tr3 of
                   Inl x \<Rightarrow> Some (Inl x, frameQueues s)
                 | Inr tr4 \<Rightarrow> Some (Inr (result, tr4), frameQueues s))
              else None))"

text \<open>
  \<open>int RunMultipleCameras(CameraList& camList)\<close>, called once, with the global
  \<open>frameQueues\<close> still empty: the returned value, the actions, and \<open>frameQueues\<close> at the
  end.
\<close>

definition RunMultipleCameras ::
    "Camera list \<Rightarrow> event list \<Rightarrow> action list \<Rightarrow> (int \<times> action list \<times> SafeQueue list) option" where
  "RunMultipleCameras camList es tr =
     (let numCameras = length camList;
          tr0 = tr @ replicate numCameras EmplaceQueue
      in case RunMultipleCameras_try camList es tr0 of
           None \<Rightarrow> None
         | Some (Inl (what, tr'), fq) \<Rightarrow> Some (- 1, tr' @ [Cout (''Error: '' @ what)], fq)
         | Some (Inr (result, tr'), fq) \<Rightarrow> Some (result, tr', fq))"

text \<open>\<open>int main\<close>: the returned value, the actions, and \<open>frameQueues\<close> at the end.\<close>

definition main :: "Camera list \<Rightarrow> event list \<Rightarrow> (int \<times> action list \<times> SafeQueue list) option" where
  "main camList es =
     (let numCameras = length camList;
          tr = [GetInstance, GetCameras,
                Cout (''Number of cameras detected: '' @ to_string_nat numCameras)]
      in if numCameras = 0 then
           Some (- 1,
                 tr @ [CamListClear, ReleaseInstance, Cout ''No cameras detected!'',
                       Cout ''Press Enter to exit...'', Getchar],
                 [])
         else
           (case RunMultipleCameras camList es tr of
              None \<Rightarrow> None
            | Some (result, tr', fq) \<Rightarrow>
                Some (result,
                      tr' @ [CamListClear, ReleaseInstance, Cout [], Cout ''Press Enter to exit...'',
                             Getchar],
                      fq)))"

text \<open>Thread creation among the actions; a camera whose setup throws.\<close>

definition is_spawn :: "action \<Rightarrow> bool" where
  "is_spawn a = (case a of SpawnProducer i \<Rightarrow> True | SpawnDisplay n \<Rightarrow> True | _ \<Rightarrow> False)"

definition setup_throws :: "Camera \<Rightarrow> bool" where
  "setup_throws cam \<longleftrightarrow>
     init_fault cam \<noteq> None \<or>
     (writable (GetNodeMap cam ''AcquisitionMode'') \<and>
      set_fault (GetNodeMap cam ''AcquisitionMode'') ''Continuous'' \<noteq> None) \<or>
     begin_fault cam \<noteq> None"

text \<open>A camera whose trigger configuration reports failure (\<open>ConfigureTrigger\<close> returns -1).\<close>

definition trigger_fails :: "Camera \<Rightarrow> bool" where
  "trigger_fails cam \<longleftrightarrow> fst (ConfigureTrigger 0 (GetNodeMap cam) []) = - 1"

section \<open>Example schedules and cameras\<close>

text \<open>A schedule for one camera that ends with the key \<open>q\<close> while the producer is inside
  its loop body.\<close>

definition demo_stop :: "event list" where
  "demo_stop =
     [Producer 0 (Incomplete None), Producer 0 (Complete 100 [] None), Producer 0 (Incomplete None),
      Display CHR ''x'', Display CHR ''x'', Display CHR ''q'']"

text \<open>
  Schedules for two cameras.  \<open>demo_partial\<close>: camera 0 delivers a frame, camera 1
  nothing, and the display thread has popped queue 0.  \<open>demo_refill\<close>: both cameras
  deliver a frame and the display thread collects them.  \<open>demo_ready\<close>: both cameras
  have delivered a frame and the display thread has passed its loop test.
\<close>

definition demo_partial :: "event list" where
  "demo_partial =
     [Producer 0 (Incomplete None), Producer 0 (Complete 100 [] None),
      Display CHR ''x'', Display CHR ''x'']"

definition demo_refill :: "event list" where
  "demo_refill =
     [Producer 0 (Incomplete None), Producer 0 (Complete 200 [] None),
      Producer 1 (Incomplete None), Producer 1 (Complete 150 [] None),
      Display CHR ''x'', Display CHR ''x'', Display CHR ''x'']"

definition demo_ready :: "event list" where
  "demo_ready =
     [Producer 0 (Incomplete None), Producer 0 (Complete 200 [] None),
      Producer 1 (Incomplete None), Producer 1 (Complete 150 [] None),
      Display CHR ''x'']"

text \<open>
  The scenario of two cameras with timestamps 100, 200, 300 and 150, 250, 350: every
  frame is captured first, then the display thread runs three full cycles.
\<close>

definition demo_diffs :: "event list" where
  "demo_diffs =
     [Producer 0 (Incomplete None), Producer 0 (Complete 100 [] None),
      Producer 0 (Incomplete None), Producer 0 (Complete 200 [] None),
      Producer 0 (Incomplete None), Producer 0 (Complete 300 [] None),
      Producer 1 (Incomplete None), Producer 1 (Complete 150 [] None),
      Producer 1 (Incomplete None), Producer 1 (Complete 250 [] None),
      Producer 1 (Incomplete None), Producer 1 (Complete 350 [] None),
      Display CHR ''x'', Display CHR ''x'', Display CHR ''x'', Display CHR ''x'',
      Display CHR ''x'', Display CHR ''x'', Display CHR ''x'', Display CHR ''x'',
      Display CHR ''x'', Display CHR ''x'', Display CHR ''x'', Display CHR ''x'']"

text \<open>
  Example cameras: one on which every driver call succeeds, one whose \<open>Init\<close> throws,
  and one whose \<open>TriggerMode\<close> node is not readable.  \<open>demo_exit\<close> continues
  \<open>demo_stop\<close> until the producer and the display thread have returned.
\<close>

definition good_node :: node where
  "good_node = \<lparr>readable = True, writable = True, set_fault = (\<lambda>entry. None)\<rparr>"

definition good_cam :: Camera where
  "good_cam =
     \<lparr>init_fault = None, GetNodeMap = (\<lambda>name. good_node), begin_fault = None,
      end_fault = None, deinit_fault = None\<rparr>"

definition no_init_cam :: Camera where
  "no_init_cam = good_cam\<lparr>init_fault := Some ''no device''\<rparr>"

definition no_trigger_cam :: Camera where
  "no_trigger_cam =
     good_cam\<lparr>GetNodeMap :=
       (\<lambda>name. if name = ''TriggerMode'' then good_node\<lparr>readable := False\<rparr> else good_node)\<rparr>"

definition demo_exit :: "event list" where
  "demo_exit = demo_stop @ [Producer 0 (Incomplete None), Producer 0 (Incomplete None), Display CHR ''x'']"

section \<open>Properties of SafeQueue\<close>

lemma push_free:
  "\<not> mtx sq \<Longrightarrow> push sq item = Some (sq\<lparr>q := q sq @ [item]\<rparr>)"
  by (simp add: push_def lock_mutex_def)

lemma pop_free_empty:
  "\<not> mtx sq \<Longrightarrow> q sq = [] \<Longrightarrow> pop sq item = Some (False, item, sq)"
  by (simp add: pop_def lock_mutex_def)

lemma pop_free_nonempty:
  "\<not> mtx sq \<Longrightarrow> q sq = x # xs \<Longrightarrow> pop sq item = Some (True, x, sq\<lparr>q := xs\<rparr>)"
  by (simp add: pop_def lock_mutex_def)

lemma run_ops_fifo:
  "\<not> mtx sq \<Longrightarrow>
   \<exists>sq' out. run_ops sq ops = Some (sq', out) \<and> \<not> mtx sq' \<and> q sq @ pushed ops = out @ q sq'"
proof (induction ops arbitrary: sq)
  case Nil
  then show ?case by simp
next
  case (Cons op ops)
  show ?case
  proof (cases op)
    case (Push x)
    have "\<not> mtx (sq\<lparr>q := q sq @ [x]\<rparr>)" using Cons.prems by simp
    from Cons.IH [OF this] obtain sq' out where
      "run_ops (sq\<lparr>q := q sq @ [x]\<rparr>) ops = Some (sq', out)" "\<not> mtx sq'"
      "q (sq\<lparr>q := q sq @ [x]\<rparr>) @ pushed ops = out @ q sq'"
      by blast
    then show ?thesis using Push Cons.prems by (simp add: push_free)
  next
    case Pop
    show ?thesis
    proof (cases "q sq")
      case Nil
      from Cons.IH [OF Cons.prems] obtain sq' out where
        "run_ops sq ops = Some (sq', out)" "\<not> mtx sq'" "q sq @ pushed ops = out @ q sq'"
        by blast
      then show ?thesis using Pop Nil Cons.prems by (simp add: pop_free_empty)
    next
      case (Cons x xs)
      have "\<not> mtx (sq\<lparr>q := xs\<rparr>)" using Cons.prems by simp
      from Cons.IH [OF this] obtain sq' out where
        "run_ops (sq\<lparr>q := xs\<rparr>) ops = Some (sq', out)" "\<not> mtx sq'"
        "q (sq\<lparr>q := xs\<rparr>) @ pushed ops = out @ q sq'"
        by blast
      then show ?thesis using Pop Cons Cons.prems by (simp add: pop_free_nonempty)
    qed
  qed
qed

section \<open>Properties of the running threads\<close>

lemma inv_init: "inv n (init_sys n)"
  by (simp add: inv_def wf_sys_def collecting_def sources_ok_def conserved_def init_sys_def
      SafeQueue_new_def indexed_def list_all_iff)

lemma mset_concat_update:
  "i < length qs \<Longrightarrow>
   mset (concat (map f (qs[i := y]))) + mset (f (qs ! i)) = mset (concat (map f qs)) + mset (f y)"
proof (induction qs arbitrary: i)
  case Nil
  then show ?case by simp
next
  case (Cons a qs)
  then show ?case by (cases i) auto
qed

lemma wf_queue_free: "wf_sys n s \<Longrightarrow> i < n \<Longrightarrow> \<not> mtx (frameQueues s ! i)"
  by (auto simp: wf_sys_def list_all_length)

lemma producer_step_none: "\<not> k < length (producers s) \<Longrightarrow> producer_step k c s = s"
  by (simp add: producer_step_def)

lemma producer_step_exit:
  "k < length (producers s) \<Longrightarrow> producers s ! k = PExit \<Longrightarrow> producer_step k c s = s"
  by (simp add: producer_step_def)

lemma producer_step_check:
  "k < length (producers s) \<Longrightarrow> producers s ! k = PCheck \<Longrightarrow>
   producer_step k c s =
     s\<lparr>producers := (producers s)[k := (if isRunning s then PBody else PExit)]\<rparr>"
  by (simp add: producer_step_def)

lemma producer_step_timeout:
  "k < length (producers s) \<Longrightarrow> producers s ! k = PBody \<Longrightarrow>
   producer_step k (Timeout e) s =
     s\<lparr>console := console s @ [camera_error k e], producers := (producers s)[k := PCheck]\<rparr>"
  by (simp add: producer_step_def acquire_body_def)

lemma producer_step_exception:
  "k < length (producers s) \<Longrightarrow> producers s ! k = PBody \<Longrightarrow>
   producer_step k (DriverException e) s =
     s\<lparr>console := console s @ [camera_error k e], producers := (producers s)[k := PCheck]\<rparr>"
  by (simp add: producer_step_def acquire_body_def)

lemma producer_step_incomplete:
  "k < length (producers s) \<Longrightarrow> producers s ! k = PBody \<Longrightarrow>
   producer_step k (Incomplete rel) s =
     s\<lparr>console := (case rel of None \<Rightarrow> console s
                   | Some what \<Rightarrow> console s @ [camera_error k what]),
       producers := (producers s)[k := PCheck]\<rparr>"
  by (simp add: producer_step_def acquire_body_def)

lemma producer_step_complete:
  "wf_sys n s \<Longrightarrow> k < n \<Longrightarrow> producers s ! k = PBody \<Longrightarrow>
   producer_step k (Complete ts pix rel) s =
     s\<lparr>frameQueues := (frameQueues s)[k := (frameQueues s ! k)
                          \<lparr>q := q (frameQueues s ! k) @ [pushed_item k ts pix]\<rparr>],
       produced := produced s @ [pushed_item k ts pix],
       console := (case rel of None \<Rightarrow> console s
                   | Some what \<Rightarrow> console s @ [camera_error k what]),
       producers := (producers s)[k := PCheck]\<rparr>"
  using wf_queue_free [of n s k]
  by (simp add: producer_step_def acquire_body_def push_free pushed_item_def wf_sys_def Let_def)

lemma display_step_check:
  "display s = SCheck \<Longrightarrow>
   display_step n key s = (if isRunning s then s\<lparr>display := SCollect 0\<rparr> else s\<lparr>display := SExit\<rparr>)"
  by (simp add: display_step_def)

lemma display_step_exit: "display s = SExit \<Longrightarrow> display_step n key s = s"
  by (simp add: display_step_def)

lemma display_step_render:
  "display s = SCollect i \<Longrightarrow> \<not> i < n \<Longrightarrow> display_step n key s = render_cycle n key s"
  by (simp add: display_step_def)

lemma display_step_abandon:
  "wf_sys n s \<Longrightarrow> display s = SCollect i \<Longrightarrow> i < n \<Longrightarrow> q (frameQueues s ! i) = [] \<Longrightarrow>
   display_step n key s =
     s\<lparr>sleeps := sleeps s + 1, display := SCheck, dropped := dropped s @ [got s], got := []\<rparr>"
  using wf_queue_free [of n s i]
  by (simp add: display_step_def pop_free_empty)

lemma display_step_pop:
  "wf_sys n s \<Longrightarrow> display s = SCollect i \<Longrightarrow> i < n \<Longrightarrow> q (frameQueues s ! i) = x # xs \<Longrightarrow>
   display_step n key s =
     s\<lparr>frameQueues := (frameQueues s)[i := (frameQueues s ! i)\<lparr>q := xs\<rparr>],
       latestFrames := (latestFrames s)[i := frame x],
       latestTimestamps := (latestTimestamps s)[i := timestamp x],
       display := SCollect (i + 1),
       got := got s @ [x]\<rparr>"
  using wf_queue_free [of n s i]
  by (simp add: display_step_def pop_free_nonempty)



lemma length_fold_update:
  "length (fold (\<lambda>i fs. fs[i := g i (fs ! i)]) js lf) = length lf"
  by (induction js arbitrary: lf) simp_all

lemma nth_fold_update:
  "distinct js \<Longrightarrow> j < length lf \<Longrightarrow>
   fold (\<lambda>i fs. fs[i := g i (fs ! i)]) js lf ! j = (if j \<in> set js then g j (lf ! j) else lf ! j)"
proof (induction js arbitrary: lf)
  case Nil
  then show ?case by simp
next
  case (Cons a js)
  let ?lf = "lf[a := g a (lf ! a)]"
  have "fold (\<lambda>i fs. fs[i := g i (fs ! i)]) js ?lf ! j =
        (if j \<in> set js then g j (?lf ! j) else ?lf ! j)"
    using Cons.prems by (intro Cons.IH) simp_all
  moreover have "?lf ! j = lf ! j" if "j \<in> set js"
  proof -
    have "a \<noteq> j" using that Cons.prems by auto
    then show ?thesis by simp
  qed
  ultimately show ?case using Cons.prems by (auto simp: nth_list_update)
qed

lemma length_draw_diffs: "length (draw_diffs n ts lf) = length lf"
  using length_fold_update [where g = "\<lambda>i m. putText m (diff_caption (ts ! i) (ts ! 0)) (10, 60)"]
  by (simp add: draw_diffs_def)

lemma nth_draw_diffs:
  "j < length lf \<Longrightarrow>
   draw_diffs n ts lf ! j =
     (if 0 < j \<and> j < n then putText (lf ! j) (diff_caption (ts ! j) (ts ! 0)) (10, 60) else lf ! j)"
  using nth_fold_update [where g = "\<lambda>i m. putText m (diff_caption (ts ! i) (ts ! 0)) (10, 60)"
      and js = "[1..<n]" and j = j and lf = lf]
  by (auto simp: draw_diffs_def)

lemma wf_producer_step:
  assumes wf: "wf_sys n s"
  shows "wf_sys n (producer_step k c s)"
proof (cases "k < length (producers s)")
  case False
  then show ?thesis using wf by (simp add: producer_step_none)
next
  case True
  then have kn: "k < n" using wf by (simp add: wf_sys_def)
  show ?thesis
  proof (cases "producers s ! k")
    case PCheck
    then show ?thesis using wf True by (simp add: producer_step_check wf_sys_def)
  next
    case PExit
    then show ?thesis using wf True by (simp add: producer_step_exit)
  next
    case PBody
    show ?thesis
    proof (cases c)
      case (Complete ts pix rel)
      have "\<not> mtx (frameQueues s ! k)" using wf kn by (rule wf_queue_free)
      then show ?thesis using wf kn PBody Complete
        by (auto simp: producer_step_complete [OF wf kn PBody] wf_sys_def list_all_length
            nth_list_update)
    qed (use wf True PBody in \<open>simp_all add: producer_step_timeout producer_step_exception
          producer_step_incomplete wf_sys_def\<close>)
  qed
qed

lemma wf_render_cycle: "wf_sys n s \<Longrightarrow> wf_sys n (render_cycle n key s)"
  by (simp add: wf_sys_def render_cycle_def Let_def length_draw_diffs)

lemma wf_display_step:
  assumes wf: "wf_sys n s"
  shows "wf_sys n (display_step n key s)"
proof (cases "display s")
  case SCheck
  then show ?thesis using wf by (simp add: display_step_check wf_sys_def)
next
  case SExit
  then show ?thesis using wf by (simp add: display_step_exit)
next
  case (SCollect i)
  show ?thesis
  proof (cases "i < n")
    case False
    then show ?thesis using wf SCollect by (simp add: display_step_render wf_render_cycle)
  next
    case True
    show ?thesis
    proof (cases "q (frameQueues s ! i)")
      case Nil
      then show ?thesis using wf SCollect True
        by (simp add: display_step_abandon [OF wf SCollect True] wf_sys_def)
    next
      case (Cons x xs)
      have "\<not> mtx (frameQueues s ! i)" using wf True by (rule wf_queue_free)
      then show ?thesis using wf SCollect True
        by (auto simp: display_step_pop [OF wf SCollect True Cons] wf_sys_def list_all_length
            nth_list_update)
    qed
  qed
qed


lemma producer_step_frame:
  "display (producer_step k c s) = display s"
  "got (producer_step k c s) = got s"
  "latestFrames (producer_step k c s) = latestFrames s"
  "latestTimestamps (producer_step k c s) = latestTimestamps s"
  "framesets (producer_step k c s) = framesets s"
  "dropped (producer_step k c s) = dropped s"
  "shown (producer_step k c s) = shown s"
  "sleeps (producer_step k c s) = sleeps s"
  "isRunning (producer_step k c s) = isRunning s"
  by (simp_all add: producer_step_def acquire_body_def Let_def
      split: pstate.splits capture.splits option.splits)

lemma collecting_producer_step: "collecting s \<Longrightarrow> collecting (producer_step k c s)"
  by (simp add: collecting_def producer_step_frame split: sstate.splits)

lemma collecting_display_step:
  assumes wf: "wf_sys n s" and co: "collecting s"
  shows "collecting (display_step n key s)"
proof (cases "display s")
  case SCheck
  then show ?thesis using co by (simp add: display_step_check collecting_def)
next
  case SExit
  then show ?thesis using co by (simp add: display_step_exit)
next
  case (SCollect i)
  show ?thesis
  proof (cases "i < n")
    case False
    then show ?thesis using SCollect
      by (simp add: display_step_render render_cycle_def Let_def collecting_def)
  next
    case True
    show ?thesis
    proof (cases "q (frameQueues s ! i)")
      case Nil
      then show ?thesis
        by (simp add: display_step_abandon [OF wf SCollect True] collecting_def)
    next
      case (Cons x xs)
      have "i < length (latestFrames s)" "i < length (latestTimestamps s)"
        using wf True by (simp_all add: wf_sys_def)
      then show ?thesis using co SCollect
        by (simp add: display_step_pop [OF wf SCollect True Cons] collecting_def
            take_Suc_conv_app_nth)
    qed
  qed
qed


lemma indexed_Nil: "indexed []"
  by (simp add: indexed_def)

lemma indexed_snoc: "indexed xs \<Longrightarrow> cameraIndex x = int (length xs) \<Longrightarrow> indexed (xs @ [x])"
  by (simp add: indexed_def)

lemma indexed_nth: "indexed xs \<Longrightarrow> j < length xs \<Longrightarrow> cameraIndex (xs ! j) = int j"
proof -
  assume a: "indexed xs" and j: "j < length xs"
  have "cameraIndex (xs ! j) = map cameraIndex xs ! j" using j by simp
  also have "\<dots> = map int [0..<length xs] ! j" using a by (simp add: indexed_def)
  also have "\<dots> = int j" using j by simp
  finally show ?thesis .
qed

lemma sources_queue:
  "sources_ok n s \<Longrightarrow> i < n \<Longrightarrow> x \<in> set (q (frameQueues s ! i)) \<Longrightarrow> cameraIndex x = int i"
  by (auto simp: sources_ok_def list_all_iff)

lemma sources_ok_producer_step:
  assumes wf: "wf_sys n s" and so: "sources_ok n s"
  shows "sources_ok n (producer_step k c s)"
proof (cases "k < length (producers s)")
  case False
  then show ?thesis using so by (simp add: producer_step_none)
next
  case True
  then have kn: "k < n" using wf by (simp add: wf_sys_def)
  have len: "length (frameQueues s) = n" using wf by (simp add: wf_sys_def)
  show ?thesis
  proof (cases "producers s ! k")
    case PCheck
    then show ?thesis using so True by (simp add: producer_step_check sources_ok_def)
  next
    case PExit
    then show ?thesis using so True by (simp add: producer_step_exit)
  next
    case PBody
    show ?thesis
    proof (cases c)
      case (Complete ts pix rel)
      have "cameraIndex (pushed_item k ts pix) = int k"
        by (simp add: pushed_item_def FrameData_of_def)
      then show ?thesis using so kn len Complete
        by (auto simp: producer_step_complete [OF wf kn PBody] sources_ok_def list_all_iff
            nth_list_update)
    qed (use so True PBody in \<open>simp_all add: producer_step_timeout producer_step_exception
          producer_step_incomplete sources_ok_def\<close>)
  qed
qed

lemma sources_ok_display_step:
  assumes wf: "wf_sys n s" and co: "collecting s" and so: "sources_ok n s"
  shows "sources_ok n (display_step n key s)"
proof (cases "display s")
  case SCheck
  then show ?thesis using so by (simp add: display_step_check sources_ok_def)
next
  case SExit
  then show ?thesis using so by (simp add: display_step_exit)
next
  case (SCollect i)
  have len: "length (frameQueues s) = n" using wf by (simp add: wf_sys_def)
  have gl: "length (got s) = i" using co SCollect by (simp add: collecting_def)
  show ?thesis
  proof (cases "i < n")
    case False
    moreover have "i \<le> n" using wf SCollect by (simp add: wf_sys_def)
    ultimately have "length (got s) = n" using gl by simp
    then show ?thesis using so SCollect False
      by (simp add: display_step_render render_cycle_def Let_def sources_ok_def indexed_Nil)
  next
    case True
    show ?thesis
    proof (cases "q (frameQueues s ! i)")
      case Nil
      then show ?thesis using so
        by (simp add: display_step_abandon [OF wf SCollect True] sources_ok_def indexed_Nil)
    next
      case (Cons x xs)
      have "cameraIndex x = int i" using so True Cons by (auto intro: sources_queue)
      then have "indexed (got s @ [x])" using so gl by (simp add: sources_ok_def indexed_snoc)
      moreover have "list_all (\<lambda>y. cameraIndex y = int i) xs"
        using so True Cons by (auto simp: list_all_iff intro: sources_queue)
      ultimately show ?thesis using so len True
        by (auto simp: display_step_pop [OF wf SCollect True Cons] sources_ok_def list_all_iff
            nth_list_update)
    qed
  qed
qed

lemma conserved_producer_step:
  assumes wf: "wf_sys n s" and cs: "conserved s"
  shows "conserved (producer_step k c s)"
proof (cases "k < length (producers s)")
  case False
  then show ?thesis using cs by (simp add: producer_step_none)
next
  case True
  then have kn: "k < n" using wf by (simp add: wf_sys_def)
  have len: "k < length (frameQueues s)" using wf kn by (simp add: wf_sys_def)
  show ?thesis
  proof (cases "producers s ! k")
    case PCheck
    then show ?thesis using cs True by (simp add: producer_step_check conserved_def)
  next
    case PExit
    then show ?thesis using cs True by (simp add: producer_step_exit)
  next
    case PBody
    show ?thesis
    proof (cases c)
      case (Complete ts pix rel)
      let ?x = "pushed_item k ts pix"
      let ?sq = "(frameQueues s ! k)\<lparr>q := q (frameQueues s ! k) @ [?x]\<rparr>"
      have "mset (concat (map q ((frameQueues s)[k := ?sq]))) + mset (q (frameQueues s ! k)) =
            mset (concat (map q (frameQueues s))) + mset (q ?sq)"
        using len by (rule mset_concat_update)
      then have "mset (concat (map q ((frameQueues s)[k := ?sq]))) =
                 mset (concat (map q (frameQueues s))) + {#?x#}"
        by simp
      then show ?thesis using cs Complete
        by (simp add: producer_step_complete [OF wf kn PBody] conserved_def)
    qed (use cs True PBody in \<open>simp_all add: producer_step_timeout producer_step_exception
          producer_step_incomplete conserved_def\<close>)
  qed
qed

lemma conserved_display_step:
  assumes wf: "wf_sys n s" and cs: "conserved s"
  shows "conserved (display_step n key s)"
proof (cases "display s")
  case SCheck
  then show ?thesis using cs by (simp add: display_step_check conserved_def)
next
  case SExit
  then show ?thesis using cs by (simp add: display_step_exit)
next
  case (SCollect i)
  show ?thesis
  proof (cases "i < n")
    case False
    then show ?thesis using cs SCollect
      by (simp add: display_step_render render_cycle_def Let_def conserved_def)
  next
    case True
    then have len: "i < length (frameQueues s)" using wf by (simp add: wf_sys_def)
    show ?thesis
    proof (cases "q (frameQueues s ! i)")
      case Nil
      then show ?thesis using cs
        by (simp add: display_step_abandon [OF wf SCollect True] conserved_def)
    next
      case (Cons x xs)
      let ?sq = "(frameQueues s ! i)\<lparr>q := xs\<rparr>"
      have "mset (concat (map q ((frameQueues s)[i := ?sq]))) + mset (q (frameQueues s ! i)) =
            mset (concat (map q (frameQueues s))) + mset (q ?sq)"
        using len by (rule mset_concat_update)
      then have "mset (concat (map q ((frameQueues s)[i := ?sq]))) + {#x#} =
                 mset (concat (map q (frameQueues s)))"
        using Cons by simp
      then show ?thesis using cs
        by (simp add: display_step_pop [OF wf SCollect True Cons] conserved_def)
    qed
  qed
qed

lemma inv_step: "inv n s \<Longrightarrow> inv n (sys_step n e s)"
  by (cases e)
    (auto simp: inv_def intro: wf_producer_step wf_display_step collecting_producer_step
      collecting_display_step sources_ok_producer_step sources_ok_display_step
      conserved_producer_step conserved_display_step)

lemma inv_run: "inv n s \<Longrightarrow> inv n (run n es s)"
  unfolding run_def by (induction es arbitrary: s) (simp_all add: inv_step)

lemma inv_reachable: "inv n (run n es (init_sys n))"
  by (rule inv_run) (rule inv_init)

section \<open>The claims about SafeQueue\<close>

lemma run_ops_pushes:
  "\<not> mtx sq \<Longrightarrow> run_ops sq (map Push xs) = Some (sq\<lparr>q := q sq @ xs\<rparr>, [])"
proof (induction xs arbitrary: sq)
  case Nil
  then show ?case by simp
next
  case (Cons x xs)
  have "\<not> mtx (sq\<lparr>q := q sq @ [x]\<rparr>)" using Cons.prems by simp
  from Cons.IH [OF this] show ?case using Cons.prems by (simp add: push_free)
qed

text \<open>
  Claim C3.  For a queue whose mutex is free and any sequence of \<open>push\<close> and \<open>pop\<close>
  calls, every call returns, and the items handed out by the pops, followed by what is
  left in the queue, are the initial content followed by the pushed items in push
  order: pops deliver in enqueue order, oldest first.  One \<open>push\<close> appends its item
  and makes the queue one longer; one successful \<open>pop\<close> removes the front item and
  makes it one shorter; after pushes alone the queue holds the old content and every
  pushed item, in order, so its depth has grown by the number of pushes and nothing
  was dropped or cut off.
\<close>

theorem SafeQueue_fifo:
  assumes free: "\<not> mtx sq"
  shows "(\<exists>sq' out. run_ops sq ops = Some (sq', out) \<and> q sq @ pushed ops = out @ q sq') \<and>
         (\<exists>sq'. push sq x = Some sq' \<and> q sq' = q sq @ [x] \<and>
                length (q sq') = length (q sq) + 1) \<and>
         (\<forall>item y sq'. pop sq item = Some (True, y, sq') \<longrightarrow>
                q sq = y # q sq' \<and> length (q sq') + 1 = length (q sq)) \<and>
         (\<exists>sq'. run_ops sq (map Push xs) = Some (sq', []) \<and> q sq' = q sq @ xs \<and>
                length (q sq') = length (q sq) + length xs)"
proof (intro conjI)
  show "\<exists>sq' out. run_ops sq ops = Some (sq', out) \<and> q sq @ pushed ops = out @ q sq'"
    using run_ops_fifo [OF free, of ops] by blast
  show "\<exists>sq'. push sq x = Some sq' \<and> q sq' = q sq @ [x] \<and> length (q sq') = length (q sq) + 1"
    using free by (simp add: push_free)
  show "\<forall>item y sq'. pop sq item = Some (True, y, sq') \<longrightarrow>
          q sq = y # q sq' \<and> length (q sq') + 1 = length (q sq)"
    using free by (cases "q sq") (auto simp: pop_free_empty pop_free_nonempty)
  show "\<exists>sq'. run_ops sq (map Push xs) = Some (sq', []) \<and> q sq' = q sq @ xs \<and>
          length (q sq') = length (q sq) + length xs"
    using free by (simp add: run_ops_pushes)
qed

text \<open>An instance of C3: three pushes interleaved with four pops on a new queue.\<close>

theorem SafeQueue_fifo_witness:
  "\<not> mtx SafeQueue_new \<and>
   run_ops SafeQueue_new
     [Push (FrameData_of Mat_empty 100 0), Push (FrameData_of Mat_empty 200 0), Pop,
      Push (FrameData_of Mat_empty 300 0), Pop, Pop, Pop] =
     Some (SafeQueue_new,
       [FrameData_of Mat_empty 100 0, FrameData_of Mat_empty 200 0, FrameData_of Mat_empty 300 0])"
  using SafeQueue_fifo [of SafeQueue_new
      "[Push (FrameData_of Mat_empty 100 0), Push (FrameData_of Mat_empty 200 0), Pop,
        Push (FrameData_of Mat_empty 300 0), Pop, Pop, Pop]"
      "FrameData_of Mat_empty 100 0" "[]"]
  by (simp add: SafeQueue_new_def push_def pop_def lock_mutex_def)

text \<open>
  Claim C6.  \<open>pop\<close> contains no wait but the acquisition of the mutex.  On a queue
  whose mutex is free it returns at once: with \<open>false\<close>, the caller's item and the
  queue untouched when the queue is empty, and otherwise with \<open>true\<close>, the front item
  handed to the caller and removed from the queue.  In every state the threads can
  reach between two atomic sections, the mutex of every queue is free.
\<close>

theorem pop_never_waits:
  "(\<not> mtx sq \<longrightarrow>
      (q sq = [] \<longrightarrow> pop sq item = Some (False, item, sq)) \<and>
      (q sq \<noteq> [] \<longrightarrow> pop sq item = Some (True, hd (q sq), sq\<lparr>q := tl (q sq)\<rparr>))) \<and>
   (i < n \<longrightarrow> \<not> mtx (frameQueues (run n es (init_sys n)) ! i))"
proof -
  have "wf_sys n (run n es (init_sys n))" using inv_reachable [of n es] by (simp add: inv_def)
  then have "i < n \<longrightarrow> \<not> mtx (frameQueues (run n es (init_sys n)) ! i)"
    using wf_queue_free [of n "run n es (init_sys n)" i] by blast
  moreover have "\<not> mtx sq \<longrightarrow>
      (q sq = [] \<longrightarrow> pop sq item = Some (False, item, sq)) \<and>
      (q sq \<noteq> [] \<longrightarrow> pop sq item = Some (True, hd (q sq), sq\<lparr>q := tl (q sq)\<rparr>))"
    by (cases "q sq") (simp_all add: pop_free_empty pop_free_nonempty)
  ultimately show ?thesis by blast
qed

text \<open>An instance of C6: \<open>pop\<close> on an empty and on a two-item queue, and a reached state.\<close>

theorem pop_never_waits_witness:
  "pop SafeQueue_new FrameData_default = Some (False, FrameData_default, SafeQueue_new) \<and>
   pop (SafeQueue_new\<lparr>q := [FrameData_of Mat_empty 100 0, FrameData_of Mat_empty 200 0]\<rparr>)
       FrameData_default =
     Some (True, FrameData_of Mat_empty 100 0,
           SafeQueue_new\<lparr>q := [FrameData_of Mat_empty 200 0]\<rparr>) \<and>
   \<not> mtx (frameQueues (run 2 [Producer 0 (Incomplete None), Display CHR ''x''] (init_sys 2)) ! 1)"
  using pop_never_waits [of SafeQueue_new FrameData_default 1 2
      "[Producer 0 (Incomplete None), Display CHR ''x'']"]
    pop_never_waits [of "SafeQueue_new\<lparr>q := [FrameData_of Mat_empty 100 0, FrameData_of Mat_empty 200 0]\<rparr>"
      FrameData_default 1 2 "[]"]
  by (simp add: SafeQueue_new_def)

section \<open>The claim about the stop flag\<close>

lemma producer_step_producers_other:
  "j \<noteq> k \<Longrightarrow> producers (producer_step j c s) ! k = producers s ! k"
  by (simp add: producer_step_def acquire_body_def Let_def
      split: pstate.splits capture.splits option.splits)

lemma display_step_producers: "producers (display_step n key s) = producers s"
  by (simp add: display_step_def render_cycle_def Let_def
      split: sstate.splits option.splits prod.splits)

lemma display_step_flag: "isRunning (display_step n key s) \<Longrightarrow> isRunning s"
  by (simp add: display_step_def render_cycle_def Let_def
      split: sstate.splits option.splits prod.splits if_splits)

lemma sys_step_flag: "isRunning (sys_step n e s) \<Longrightarrow> isRunning s"
  by (cases e) (simp_all add: producer_step_frame display_step_flag)

lemma run_flag: "isRunning (run n es s) \<Longrightarrow> isRunning s"
  unfolding run_def by (induction es arbitrary: s) (auto dest: sys_step_flag)

lemma run_append: "run n (es @ es') s = run n es' (run n es s)"
  by (simp add: run_def)

lemma producer_rank_turn:
  assumes wf: "wf_sys n s" and stopped: "\<not> isRunning s" and kn: "k < n"
  shows "producer_rank (producers (producer_step k c s) ! k) \<le> producer_rank (producers s ! k) - 1"
proof -
  have len: "k < length (producers s)" using wf kn by (simp add: wf_sys_def)
  show ?thesis
  proof (cases "producers s ! k")
    case PCheck
    then show ?thesis using len stopped by (simp add: producer_step_check producer_rank_def)
  next
    case PExit
    then show ?thesis using len by (simp add: producer_step_exit producer_rank_def)
  next
    case PBody
    show ?thesis
    proof (cases c)
      case (Complete ts pix rel)
      then show ?thesis using len PBody
        by (simp add: producer_step_complete [OF wf kn PBody] producer_rank_def)
    qed (use len PBody in \<open>simp_all add: producer_step_timeout producer_step_exception
          producer_step_incomplete producer_rank_def\<close>)
  qed
qed

lemma producer_rank_run:
  assumes "wf_sys n s" "\<not> isRunning s" "k < n"
  shows "producer_rank (producers (run n es s) ! k) \<le> producer_rank (producers s ! k) - producer_turns k es"
  using assms
proof (induction es arbitrary: s)
  case Nil
  then show ?case by (simp add: run_def)
next
  case (Cons e es)
  let ?s = "sys_step n e s"
  have wf': "wf_sys n ?s" using Cons.prems(1) by (cases e) (simp_all add: wf_producer_step wf_display_step)
  have st': "\<not> isRunning ?s" using Cons.prems(2) sys_step_flag by blast
  have ih: "producer_rank (producers (run n es ?s) ! k) \<le> producer_rank (producers ?s ! k) - producer_turns k es"
    using Cons.IH [OF wf' st' Cons.prems(3)] .
  have step: "producer_rank (producers ?s ! k) \<le> producer_rank (producers s ! k) - producer_turns k [e]"
  proof (cases e)
    case (Producer j c)
    show ?thesis
    proof (cases "j = k")
      case True
      then show ?thesis using Producer producer_rank_turn [OF Cons.prems, of c] by simp
    next
      case False
      then show ?thesis using Producer by (simp add: producer_step_producers_other)
    qed
  next
    case (Display key)
    then show ?thesis by (simp add: display_step_producers)
  qed
  have "producer_turns k (e # es) = producer_turns k [e] + producer_turns k es"
    by (cases e) simp_all
  moreover have "run n (e # es) s = run n es ?s" by (simp add: run_def)
  ultimately show ?case using ih step by simp
qed

lemma display_rank_turn:
  assumes wf: "wf_sys n s" and stopped: "\<not> isRunning s"
  shows "display_rank n (display (display_step n key s)) \<le> display_rank n (display s) - 1"
proof (cases "display s")
  case SCheck
  then show ?thesis using stopped by (simp add: display_step_check display_rank_def)
next
  case SExit
  then show ?thesis by (simp add: display_step_exit display_rank_def)
next
  case (SCollect i)
  show ?thesis
  proof (cases "i < n")
    case False
    then show ?thesis using SCollect
      by (simp add: display_step_render render_cycle_def Let_def display_rank_def)
  next
    case True
    show ?thesis
    proof (cases "q (frameQueues s ! i)")
      case Nil
      then show ?thesis using SCollect
        by (simp add: display_step_abandon [OF wf SCollect True] display_rank_def)
    next
      case (Cons x xs)
      then show ?thesis using SCollect True
        by (simp add: display_step_pop [OF wf SCollect True Cons] display_rank_def)
    qed
  qed
qed

lemma display_rank_run:
  assumes "wf_sys n s" "\<not> isRunning s"
  shows "display_rank n (display (run n es s)) \<le> display_rank n (display s) - display_turns es"
  using assms
proof (induction es arbitrary: s)
  case Nil
  then show ?case by (simp add: run_def)
next
  case (Cons e es)
  let ?s = "sys_step n e s"
  have wf': "wf_sys n ?s" using Cons.prems(1) by (cases e) (simp_all add: wf_producer_step wf_display_step)
  have st': "\<not> isRunning ?s" using Cons.prems(2) sys_step_flag by blast
  have ih: "display_rank n (display (run n es ?s)) \<le> display_rank n (display ?s) - display_turns es"
    using Cons.IH [OF wf' st'] .
  have step: "display_rank n (display ?s) \<le> display_rank n (display s) - display_turns [e]"
  proof (cases e)
    case (Producer j c)
    then show ?thesis by (simp add: producer_step_frame)
  next
    case (Display key)
    then show ?thesis using display_rank_turn [OF Cons.prems, of key] by simp
  qed
  have "display_turns (e # es) = display_turns [e] + display_turns es"
    by (cases e) simp_all
  moreover have "run n (e # es) s = run n es ?s" by (simp add: run_def)
  ultimately show ?case using ih step by simp
qed

lemma display_rank_bound: "wf_sys n s \<Longrightarrow> display_rank n (display s) \<le> n + 2"
  by (simp add: display_rank_def wf_sys_def split: sstate.splits)

lemma producer_rank_bound: "producer_rank p \<le> 2"
  by (simp add: producer_rank_def split: pstate.splits)

lemma producer_rank_zero: "producer_rank p = 0 \<longleftrightarrow> p = PExit"
  by (simp add: producer_rank_def split: pstate.splits)

lemma display_rank_zero: "display_rank n d = 0 \<longleftrightarrow> d = SExit"
  by (simp add: display_rank_def split: sstate.splits)

text \<open>
  Claim C7.  The flag is set when the threads start, with every thread at its loop
  test.  Along every run it never goes back from cleared to set, so it changes at most
  once.  Once it is cleared: a producer at its loop test returns without entering the
  body, and so does the display thread; no run sets the flag again; a producer has
  returned after at most two of its atomic sections (the end of the body it was in and
  the test), and the display thread after at most \<open>numCameras + 2\<close> (the rest of its
  iteration and the test).
\<close>

theorem stop_flag:
  assumes wf: "wf_sys n s" and stopped: "\<not> isRunning s"
  shows "isRunning (init_sys n) \<and>
         (isRunning (run n (es0 @ es1) (init_sys n)) \<longrightarrow> isRunning (run n es0 (init_sys n))) \<and>
         \<not> isRunning (run n es s) \<and>
         (k < n \<and> producers s ! k = PCheck \<longrightarrow>
            producer_step k c s = s\<lparr>producers := (producers s)[k := PExit]\<rparr>) \<and>
         (display s = SCheck \<longrightarrow> display_step n key s = s\<lparr>display := SExit\<rparr>) \<and>
         (k < n \<and> 2 \<le> producer_turns k es \<longrightarrow> producers (run n es s) ! k = PExit) \<and>
         (n + 2 \<le> display_turns es \<longrightarrow> display (run n es s) = SExit)"
proof (intro conjI impI)
  show "isRunning (init_sys n)" by (simp add: init_sys_def)
  show "isRunning (run n es0 (init_sys n))" if "isRunning (run n (es0 @ es1) (init_sys n))"
    using that by (simp add: run_append run_flag)
  show "\<not> isRunning (run n es s)" using stopped run_flag by blast
  show "producer_step k c s = s\<lparr>producers := (producers s)[k := PExit]\<rparr>"
    if "k < n \<and> producers s ! k = PCheck"
    using that wf stopped by (simp add: producer_step_check wf_sys_def)
  show "display_step n key s = s\<lparr>display := SExit\<rparr>" if "display s = SCheck"
    using that stopped by (simp add: display_step_check)
  show "producers (run n es s) ! k = PExit" if "k < n \<and> 2 \<le> producer_turns k es"
  proof -
    have "producer_rank (producers (run n es s) ! k) \<le> producer_rank (producers s ! k) - producer_turns k es"
      using wf stopped that by (intro producer_rank_run) simp_all
    then have "producer_rank (producers (run n es s) ! k) = 0"
      using that producer_rank_bound [of "producers s ! k"] by simp
    then show ?thesis by (simp add: producer_rank_zero)
  qed
  show "display (run n es s) = SExit" if "n + 2 \<le> display_turns es"
  proof -
    have "display_rank n (display (run n es s)) \<le> display_rank n (display s) - display_turns es"
      using wf stopped by (rule display_rank_run)
    then have "display_rank n (display (run n es s)) = 0"
      using that display_rank_bound [OF wf] by simp
    then show ?thesis by (simp add: display_rank_zero)
  qed
qed


lemmas sys_eval =
  run_def init_sys_def producer_step_def display_step_def acquire_body_def render_cycle_def
  push_def pop_def lock_mutex_def SafeQueue_new_def Let_def

lemma demo_stop_state:
  "\<not> isRunning (run 1 demo_stop (init_sys 1)) \<and>
   producers (run 1 demo_stop (init_sys 1)) = [PBody] \<and>
   display (run 1 demo_stop (init_sys 1)) = SCheck"
  by (simp add: demo_stop_def sys_eval)

text \<open>An instance of C7: the key \<open>q\<close> arrives while the only producer is inside its loop
  body; the producer finishes that iteration and returns, and so does the display
  thread.\<close>

theorem stop_flag_witness:
  "wf_sys 1 (run 1 demo_stop (init_sys 1)) \<and>
   \<not> isRunning (run 1 demo_stop (init_sys 1)) \<and>
   producers (run 1 demo_stop (init_sys 1)) ! 0 = PBody \<and>
   producers (run 1 [Producer 0 (Complete 200 [] None), Display CHR ''x'', Producer 0 (Incomplete None),
                     Display CHR ''x'', Display CHR ''x'']
                (run 1 demo_stop (init_sys 1))) ! 0 = PExit \<and>
   display (run 1 [Producer 0 (Complete 200 [] None), Display CHR ''x'', Producer 0 (Incomplete None),
                   Display CHR ''x'', Display CHR ''x'']
              (run 1 demo_stop (init_sys 1))) = SExit"
proof -
  have wf: "wf_sys 1 (run 1 demo_stop (init_sys 1))"
    using inv_reachable [of 1 demo_stop] by (simp add: inv_def)
  have st: "\<not> isRunning (run 1 demo_stop (init_sys 1))" using demo_stop_state by blast
  show ?thesis
    using wf st stop_flag [OF wf st, of "[]" "[]"
        "[Producer 0 (Complete 200 [] None), Display CHR ''x'', Producer 0 (Incomplete None),
          Display CHR ''x'', Display CHR ''x'']" 0 "Incomplete None" "CHR ''x''"]
      demo_stop_state
    by simp
qed


section \<open>The claim about transient capture errors\<close>

text \<open>
  Claim C8, as amended.  In an iteration of \<open>AcquireImages\<close> whose capture ends in a
  timeout or another driver exception, the message is written to the console, nothing
  is pushed, and the thread is back at its loop test; in an iteration whose image is
  incomplete the image is released without any console line (unless the release
  itself throws, which is logged like any driver exception), nothing is pushed, and
  the thread is back at its loop test.  Nothing else changes: not the flag, not any
  queue, not another producer, not the display thread.
\<close>

theorem transient_capture_skipped:
  assumes "k < length (producers s)" and "producers s ! k = PBody"
  shows "producer_step k (Timeout what) s =
           s\<lparr>console := console s @ [camera_error k what],
             producers := (producers s)[k := PCheck]\<rparr> \<and>
         producer_step k (DriverException what) s =
           s\<lparr>console := console s @ [camera_error k what],
             producers := (producers s)[k := PCheck]\<rparr> \<and>
         producer_step k (Incomplete None) s = s\<lparr>producers := (producers s)[k := PCheck]\<rparr> \<and>
         producer_step k (Incomplete (Some what)) s =
           s\<lparr>console := console s @ [camera_error k what],
             producers := (producers s)[k := PCheck]\<rparr>"
  using assms
  by (simp add: producer_step_timeout producer_step_exception producer_step_incomplete)

text \<open>An instance of C8 for camera 1 of two.\<close>

theorem transient_capture_skipped_witness:
  "producers (run 2 [Producer 1 (Incomplete None)] (init_sys 2)) ! 1 = PBody \<and>
   run 2 [Producer 1 (Incomplete None), Producer 1 (Timeout ''timed out'')] (init_sys 2) =
     (init_sys 2)\<lparr>console := [''Camera 1 Error: timed out'']\<rparr> \<and>
   run 2 [Producer 1 (Incomplete None), Producer 1 (DriverException ''no trigger'')] (init_sys 2) =
     (init_sys 2)\<lparr>console := [''Camera 1 Error: no trigger'']\<rparr> \<and>
   run 2 [Producer 1 (Incomplete None), Producer 1 (Incomplete None)] (init_sys 2) = init_sys 2"
  using transient_capture_skipped [of 1 "run 2 [Producer 1 (Incomplete None)] (init_sys 2)" "''timed out''"]
    transient_capture_skipped [of 1 "run 2 [Producer 1 (Incomplete None)] (init_sys 2)" "''no trigger''"]
  by (simp add: sys_eval camera_error_def to_string_nat.simps [of "Suc 0"] digit_char_def
      numeral_2_eq_2)

text \<open>
  Against C8 as stated: an incomplete capture leaves the console as it was, so that
  error is not logged.
\<close>

theorem incomplete_capture_not_logged:
  "producers (run 1 [Producer 0 (Incomplete None)] (init_sys 1)) ! 0 = PBody \<and>
   console (run 1 [Producer 0 (Incomplete None), Producer 0 (Incomplete None)] (init_sys 1)) =
     console (run 1 [Producer 0 (Incomplete None)] (init_sys 1))"
  by (simp add: sys_eval)

section \<open>The claims about collection attempts\<close>

lemma display_step_dropped: "\<exists>ys. dropped (display_step n key s) = dropped s @ ys"
  by (simp add: display_step_def render_cycle_def Let_def
      split: sstate.splits option.splits prod.splits)

lemma display_step_framesets: "\<exists>ys. framesets (display_step n key s) = framesets s @ ys"
  by (simp add: display_step_def render_cycle_def Let_def
      split: sstate.splits option.splits prod.splits)

lemma run_dropped: "\<exists>ys. dropped (run n es s) = dropped s @ ys"
proof (induction es arbitrary: s)
  case Nil
  then show ?case by (simp add: run_def)
next
  case (Cons e es)
  obtain ys where 1: "dropped (sys_step n e s) = dropped s @ ys"
    using display_step_dropped [of n _ s] by (cases e) (auto simp: producer_step_frame)
  obtain zs where 2: "dropped (run n es (sys_step n e s)) = dropped (sys_step n e s) @ zs"
    using Cons.IH by blast
  have "run n (e # es) s = run n es (sys_step n e s)" by (simp add: run_def)
  then show ?case using 1 2 by simp
qed

lemma run_framesets: "\<exists>ys. framesets (run n es s) = framesets s @ ys"
proof (induction es arbitrary: s)
  case Nil
  then show ?case by (simp add: run_def)
next
  case (Cons e es)
  obtain ys where 1: "framesets (sys_step n e s) = framesets s @ ys"
    using display_step_framesets [of n _ s] by (cases e) (auto simp: producer_step_frame)
  obtain zs where 2: "framesets (run n es (sys_step n e s)) = framesets (sys_step n e s) @ zs"
    using Cons.IH by blast
  have "run n (e # es) s = run n es (sys_step n e s)" by (simp add: run_def)
  then show ?case using 1 2 by simp
qed

lemma conserved_distinct:
  assumes "conserved s" and "distinct (produced s)"
  shows "distinct (concat (map q (frameQueues s)) @ got s @ concat (framesets s) @
                   concat (dropped s))"
proof -
  have "mset (produced s) =
        mset (concat (map q (frameQueues s)) @ got s @ concat (framesets s) @ concat (dropped s))"
    using assms(1) by (simp add: conserved_def)
  then show ?thesis using assms(2) mset_eq_imp_distinct_iff by blast
qed

lemma inv_collect_length: "inv n s \<Longrightarrow> display s = SCollect i \<Longrightarrow> length (got s) = i"
  by (simp add: inv_def collecting_def)

text \<open>
  Claim C1.  In a reachable state where the collecting loop stands at queue \<open>i\<close> and
  that queue is empty, the step of the display thread changes nothing but this: one
  more sleep, the thread back at its loop test, and the \<open>i\<close> items popped in this
  attempt recorded as dropped.  No queue is touched (no further pop, nothing put
  back) and nothing is shown.  If the flag is still set, the next step starts a new
  attempt at queue 0.  In every later state, provided the pushed items are pairwise
  different, none of the dropped items is in any frame set or in any queue.
\<close>

theorem abandoned_attempt:
  assumes iv: "inv n s" and at: "display s = SCollect i" and lt: "i < n"
    and emp: "q (frameQueues s ! i) = []"
  shows "display_step n key s =
           s\<lparr>sleeps := sleeps s + 1, display := SCheck, dropped := dropped s @ [got s],
             got := []\<rparr> \<and>
         length (got s) = i \<and>
         (isRunning s \<longrightarrow>
            display (display_step n key' (display_step n key s)) = SCollect 0) \<and>
         (distinct (produced (run n es (display_step n key s))) \<longrightarrow>
            (\<forall>x\<in>set (got s).
               x \<notin> set (concat (framesets (run n es (display_step n key s)))) \<and>
               x \<notin> set (concat (map q (frameQueues (run n es (display_step n key s)))))))"
proof -
  have wf: "wf_sys n s" using iv by (simp add: inv_def)
  let ?a = "display_step n key s"
  let ?r = "run n es ?a"
  have ab: "?a = s\<lparr>sleeps := sleeps s + 1, display := SCheck, dropped := dropped s @ [got s],
                    got := []\<rparr>"
    using wf at lt emp by (rule display_step_abandon)
  have retry: "display (display_step n key' ?a) = SCollect 0" if "isRunning s"
    using that by (simp add: ab display_step_check)
  have far: "x \<notin> set (concat (framesets ?r)) \<and> x \<notin> set (concat (map q (frameQueues ?r)))"
    if d: "distinct (produced ?r)" and x: "x \<in> set (got s)" for x
  proof -
    have "inv n ?a" using inv_step [OF iv, of "Display key"] by simp
    then have "conserved ?r" using inv_run [of n ?a es] by (simp add: inv_def)
    then have dd: "distinct (concat (map q (frameQueues ?r)) @ got ?r @ concat (framesets ?r) @
                     concat (dropped ?r))"
      using d by (rule conserved_distinct)
    obtain ys where "dropped ?r = dropped ?a @ ys" using run_dropped by blast
    then have "x \<in> set (concat (dropped ?r))" using x by (simp add: ab)
    then show ?thesis using dd by auto
  qed
  show ?thesis using ab retry far inv_collect_length [OF iv at] by blast
qed

text \<open>
  Claim C2.  In a reachable state of the collecting loop: a successful \<open>pop\<close> takes the
  front item out of queue \<open>i\<close> and records it for this attempt; when the loop has run
  through all \<open>numCameras\<close> queues, the attempt's items are exactly \<open>numCameras\<close>
  many, the one at position \<open>j\<close> from camera \<open>j\<close>, their frames and timestamps are
  what \<open>latestFrames\<close> and \<open>latestTimestamps\<close> hold, and the grid shown is built from
  them.  Over any run, the items of all frame sets together are a sub-multiset of the
  pushed items (no item is used more often than it was pushed), and when the pushed
  items are pairwise different, no item occurs twice in the frame sets.
\<close>

theorem completed_cycle:
  assumes iv: "inv n s" and at: "display s = SCollect i"
  shows "(i < n \<and> q (frameQueues s ! i) = x # xs \<longrightarrow>
            display_step n key s =
              s\<lparr>frameQueues := (frameQueues s)[i := (frameQueues s ! i)\<lparr>q := xs\<rparr>],
                latestFrames := (latestFrames s)[i := frame x],
                latestTimestamps := (latestTimestamps s)[i := timestamp x],
                display := SCollect (i + 1),
                got := got s @ [x]\<rparr>) \<and>
         (\<not> i < n \<longrightarrow>
            display_step n key s = render_cycle n key s \<and>
            framesets (display_step n key s) = framesets s @ [got s] \<and>
            length (got s) = n \<and>
            map cameraIndex (got s) = map int [0..<n] \<and>
            latestFrames s = map frame (got s) \<and>
            latestTimestamps s = map timestamp (got s) \<and>
            shown (display_step n key s) =
              shown s @ [arrange_grid n (gridRows n) (gridCols n)
                           (draw_diffs n (map timestamp (got s)) (map frame (got s)))]) \<and>
         mset (concat (framesets (run n es s))) \<subseteq># mset (produced (run n es s)) \<and>
         (distinct (produced (run n es s)) \<longrightarrow> distinct (concat (framesets (run n es s))))"
proof -
  have wf: "wf_sys n s" and co: "collecting s" and so: "sources_ok n s"
    using iv by (simp_all add: inv_def)
  have popped: "display_step n key s =
              s\<lparr>frameQueues := (frameQueues s)[i := (frameQueues s ! i)\<lparr>q := xs\<rparr>],
                latestFrames := (latestFrames s)[i := frame x],
                latestTimestamps := (latestTimestamps s)[i := timestamp x],
                display := SCollect (i + 1),
                got := got s @ [x]\<rparr>"
    if "i < n \<and> q (frameQueues s ! i) = x # xs"
    using that display_step_pop [OF wf at] by blast
  have rendered: "display_step n key s = render_cycle n key s \<and>
            framesets (display_step n key s) = framesets s @ [got s] \<and>
            length (got s) = n \<and>
            map cameraIndex (got s) = map int [0..<n] \<and>
            latestFrames s = map frame (got s) \<and>
            latestTimestamps s = map timestamp (got s) \<and>
            shown (display_step n key s) =
              shown s @ [arrange_grid n (gridRows n) (gridCols n)
                           (draw_diffs n (map timestamp (got s)) (map frame (got s)))]"
    if fin: "\<not> i < n"
  proof -
    have "i \<le> n" using wf at by (simp add: wf_sys_def)
    then have i: "i = n" using fin by simp
    have len: "length (got s) = n" using co at i by (simp add: collecting_def)
    have lf: "latestFrames s = map frame (got s)"
      and lt: "latestTimestamps s = map timestamp (got s)"
      using co at i wf by (simp_all add: collecting_def wf_sys_def)
    have idx: "map cameraIndex (got s) = map int [0..<n]"
      using so len by (simp add: sources_ok_def indexed_def)
    have ds: "display_step n key s = render_cycle n key s"
      using at fin by (rule display_step_render)
    show ?thesis using ds len idx lf lt by (simp add: render_cycle_def Let_def)
  qed
  have cs: "conserved (run n es s)" using inv_run [OF iv, of es] by (simp add: inv_def)
  then have sub: "mset (concat (framesets (run n es s))) \<subseteq># mset (produced (run n es s))"
    by (simp add: conserved_def)
  have dis: "distinct (concat (framesets (run n es s)))" if "distinct (produced (run n es s))"
    using conserved_distinct [OF cs that] by simp
  show ?thesis using popped rendered sub dis by blast
qed

lemmas item_eval = pushed_item_def FrameData_of_def numeral_2_eq_2

lemma demo_partial_state:
  "display (run 2 demo_partial (init_sys 2)) = SCollect 1 \<and>
   q (frameQueues (run 2 demo_partial (init_sys 2)) ! 1) = [] \<and>
   got (run 2 demo_partial (init_sys 2)) = [pushed_item 0 100 []]"
  by (simp add: demo_partial_def sys_eval item_eval)

text \<open>An instance of C1: the frame with timestamp 100 is dropped; the next attempt
  completes with the frames 200 and 150.\<close>

theorem abandoned_attempt_witness:
  "inv 2 (run 2 demo_partial (init_sys 2)) \<and>
   display (run 2 demo_partial (init_sys 2)) = SCollect 1 \<and>
   q (frameQueues (run 2 demo_partial (init_sys 2)) ! 1) = [] \<and>
   got (run 2 demo_partial (init_sys 2)) = [pushed_item 0 100 []] \<and>
   sleeps (run 2 (demo_partial @ [Display CHR ''x'']) (init_sys 2)) = 1 \<and>
   shown (run 2 (demo_partial @ [Display CHR ''x'']) (init_sys 2)) = [] \<and>
   dropped (run 2 (demo_partial @ [Display CHR ''x''] @ demo_refill @ [Display CHR ''x''])
              (init_sys 2)) = [[pushed_item 0 100 []]] \<and>
   framesets (run 2 (demo_partial @ [Display CHR ''x''] @ demo_refill @ [Display CHR ''x''])
              (init_sys 2)) = [[pushed_item 0 200 [], pushed_item 1 150 []]]"
proof -
  let ?s = "run 2 demo_partial (init_sys 2)"
  have iv: "inv 2 ?s" by (rule inv_reachable)
  have at: "display ?s = SCollect 1" and emp: "q (frameQueues ?s ! 1) = []"
    using demo_partial_state by blast+
  show ?thesis
    using iv abandoned_attempt [OF iv at _ emp, of "CHR ''x''" "CHR ''x''"
        "demo_refill @ [Display CHR ''x'']"]
    by (simp add: demo_partial_def demo_refill_def sys_eval item_eval)
qed


lemma demo_ready_state:
  "display (run 2 demo_ready (init_sys 2)) = SCollect 0 \<and>
   q (frameQueues (run 2 demo_ready (init_sys 2)) ! 0) = [pushed_item 0 200 []]"
  by (simp add: demo_ready_def sys_eval item_eval)

lemma demo_collected_state:
  "display (run 2 (demo_ready @ [Display CHR ''x'', Display CHR ''x'']) (init_sys 2)) = SCollect 2"
  by (simp add: demo_ready_def sys_eval item_eval)

text \<open>An instance of C2: one completed cycle over two cameras.\<close>

theorem completed_cycle_witness:
  "inv 2 (run 2 demo_ready (init_sys 2)) \<and>
   display (run 2 demo_ready (init_sys 2)) = SCollect 0 \<and>
   q (frameQueues (run 2 (demo_ready @ [Display CHR ''x'']) (init_sys 2)) ! 0) = [] \<and>
   got (run 2 (demo_ready @ [Display CHR ''x'']) (init_sys 2)) = [pushed_item 0 200 []] \<and>
   display (run 2 (demo_ready @ [Display CHR ''x'', Display CHR ''x'']) (init_sys 2)) =
     SCollect 2 \<and>
   framesets (run 2 (demo_ready @ [Display CHR ''x'', Display CHR ''x'', Display CHR ''x''])
                (init_sys 2)) = [[pushed_item 0 200 [], pushed_item 1 150 []]] \<and>
   distinct (produced (run 2 (demo_ready @ [Display CHR ''x'', Display CHR ''x'', Display CHR ''x''])
                (init_sys 2)))"
proof -
  let ?s = "run 2 demo_ready (init_sys 2)"
  let ?t = "run 2 (demo_ready @ [Display CHR ''x'', Display CHR ''x'']) (init_sys 2)"
  have iv: "inv 2 ?s" and iv': "inv 2 ?t" by (rule inv_reachable)+
  have at: "display ?s = SCollect 0" using demo_ready_state by blast
  have at': "display ?t = SCollect 2" by (rule demo_collected_state)
  show ?thesis
    using iv completed_cycle [OF iv at, of "pushed_item 0 200 []" "[]" "CHR ''x''" "[]"]
      completed_cycle [OF iv' at', of "pushed_item 0 200 []" "[]" "CHR ''x''" "[Display CHR ''x'']"]
    by (simp add: demo_ready_def sys_eval item_eval)
qed

section \<open>Properties of the floating-point rounding\<close>

lemma fl_round_ulp:
  "x \<noteq> 0 \<Longrightarrow> fl_round p x = of_int (round_half_even (x / ulp p x)) * ulp p x"
  by (simp add: fl_round_def ulp_def Let_def)

lemma ulp_pos: "0 < ulp p x"
  by (simp add: ulp_def)

lemma round_half_even_error: "\<bar>of_int (round_half_even y) - y\<bar> \<le> 1 / 2"
  unfolding round_half_even_def Let_def by (auto; linarith)

lemma round_half_even_ge: "of_int m \<le> y \<Longrightarrow> m \<le> round_half_even y"
proof -
  assume "of_int m \<le> y"
  then have "m \<le> \<lfloor>y\<rfloor>" by (simp add: le_floor_iff)
  moreover have "\<lfloor>y\<rfloor> \<le> round_half_even y" by (simp add: round_half_even_def Let_def)
  ultimately show ?thesis by simp
qed

lemma round_half_even_int: "round_half_even (of_int m) = m"
  by (simp add: round_half_even_def)

lemma round_half_even_le: "y \<le> of_int m \<Longrightarrow> round_half_even y \<le> m"
proof (cases "y = of_int m")
  case True
  then show ?thesis by (simp add: round_half_even_int)
next
  case False
  assume "y \<le> of_int m"
  then have "y < of_int m" using False by simp
  then have "\<lfloor>y\<rfloor> < m" by (simp add: floor_less_iff)
  moreover have "round_half_even y \<le> \<lfloor>y\<rfloor> + 1" by (simp add: round_half_even_def Let_def)
  ultimately show ?thesis by simp
qed

lemma fl_round_error:
  assumes "x \<noteq> 0"
  shows "\<bar>fl_round p x - x\<bar> \<le> ulp p x / 2"
proof -
  let ?u = "ulp p x"
  have u: "0 < ?u" by (rule ulp_pos)
  have "\<bar>of_int (round_half_even (x / ?u)) - x / ?u\<bar> \<le> 1 / 2"
    by (rule round_half_even_error)
  then have "\<bar>of_int (round_half_even (x / ?u)) - x / ?u\<bar> * ?u \<le> 1 / 2 * ?u"
    using u by (intro mult_right_mono) simp_all
  moreover have "\<bar>of_int (round_half_even (x / ?u)) - x / ?u\<bar> * ?u =
                 \<bar>of_int (round_half_even (x / ?u)) * ?u - x\<bar>"
  proof -
    have "\<bar>of_int (round_half_even (x / ?u)) - x / ?u\<bar> * ?u =
          \<bar>(of_int (round_half_even (x / ?u)) - x / ?u) * ?u\<bar>"
      using u by (simp add: abs_mult)
    also have "(of_int (round_half_even (x / ?u)) - x / ?u) * ?u =
               of_int (round_half_even (x / ?u)) * ?u - x"
      using u by (simp add: left_diff_distrib)
    finally show ?thesis .
  qed
  ultimately show ?thesis using assms by (simp add: fl_round_ulp)
qed

lemma ulp_le:
  assumes "0 < x"
  shows "ulp p x \<le> x * 2 / 2 ^ p"
proof -
  have "2 powr (of_int \<lfloor>log 2 x\<rfloor>) \<le> 2 powr (log 2 x)"
    by (intro powr_mono) simp_all
  then have le: "2 powr (of_int \<lfloor>log 2 x\<rfloor>) \<le> x" using assms by simp
  have eq: "real_of_int \<lfloor>log 2 x\<rfloor> - real_of_int (int p) + 1 =
            real_of_int \<lfloor>log 2 x\<rfloor> + (1 - real p)"
    by simp
  have "ulp p x = 2 powr (of_int \<lfloor>log 2 x\<rfloor> + (1 - real p))"
    unfolding ulp_def using assms by (simp only: abs_of_pos eq)
  then have "ulp p x = 2 powr (of_int \<lfloor>log 2 x\<rfloor>) * 2 powr (1 - real p)"
    by (simp only: powr_add)
  also have "2 powr (1 - real p) = 2 / 2 ^ p"
    by (simp add: powr_diff powr_realpow)
  finally have "ulp p x = 2 powr (of_int \<lfloor>log 2 x\<rfloor>) * (2 / 2 ^ p)" .
  moreover have "2 powr (of_int \<lfloor>log 2 x\<rfloor>) * (2 / 2 ^ p) \<le> x * (2 / 2 ^ p)"
    using le by (intro mult_right_mono) simp_all
  ultimately show ?thesis by simp
qed

lemma ulp_small:
  assumes "0 < x" and "x < 2 ^ p"
  shows "\<exists>j. ulp p x = 1 / 2 ^ j"
proof -
  have "x < 2 powr real p" using assms by (simp add: powr_realpow)
  then have "log 2 x < real p" using assms by (simp add: log_less_iff)
  then have "\<lfloor>log 2 x\<rfloor> < int p" by (simp add: floor_less_iff)
  then obtain j where j: "int j = int p - 1 - \<lfloor>log 2 x\<rfloor>"
    by (metis add_diff_cancel_left' diff_diff_eq2 int_ops(6) less_iff_succ_less_eq nat_0_le
        not_less zle_diff1_eq zle_iff_zadd)
  have "of_int \<lfloor>log 2 x\<rfloor> - of_int (int p) + 1 = - real j"
  proof -
    have "real_of_int (int j) = real_of_int (int p - 1 - \<lfloor>log 2 x\<rfloor>)" using j by simp
    then show ?thesis by simp
  qed
  then have "ulp p x = 2 powr (- real j)" using assms by (simp add: ulp_def)
  also have "\<dots> = 1 / 2 ^ j" by (simp add: powr_minus powr_realpow inverse_eq_divide)
  finally show ?thesis by blast
qed


lemma fl_round_ge_int:
  assumes "0 < x" and "x < 2 ^ p" and "of_int k \<le> x"
  shows "of_int k \<le> fl_round p x"
proof -
  obtain j where j: "ulp p x = 1 / 2 ^ j" using ulp_small [OF assms(1,2)] by blast
  have "real_of_int (k * 2 ^ j) \<le> x * 2 ^ j" using assms(3) by simp
  then have "k * 2 ^ j \<le> round_half_even (x * 2 ^ j)" by (rule round_half_even_ge)
  then have "real_of_int (k * 2 ^ j) \<le> of_int (round_half_even (x * 2 ^ j))" by linarith
  then have "real_of_int k \<le> of_int (round_half_even (x * 2 ^ j)) / 2 ^ j"
    by (simp add: pos_le_divide_eq)
  then show ?thesis using assms(1) by (simp add: fl_round_ulp j)
qed

lemma fl_round_le_int:
  assumes "0 < x" and "x < 2 ^ p" and "x \<le> of_int k"
  shows "fl_round p x \<le> of_int k"
proof -
  obtain j where j: "ulp p x = 1 / 2 ^ j" using ulp_small [OF assms(1,2)] by blast
  have "x * 2 ^ j \<le> real_of_int (k * 2 ^ j)" using assms(3) by simp
  then have "round_half_even (x * 2 ^ j) \<le> k * 2 ^ j" by (rule round_half_even_le)
  then have "real_of_int (round_half_even (x * 2 ^ j)) \<le> of_int (k * 2 ^ j)" by linarith
  then have "of_int (round_half_even (x * 2 ^ j)) / 2 ^ j \<le> real_of_int k"
    by (simp add: pos_divide_le_eq)
  then show ?thesis using assms(1) by (simp add: fl_round_ulp j)
qed

lemma fl_round_pow2:
  assumes "0 < p"
  shows "fl_round p (2 ^ p) = 2 ^ p"
proof -
  have "\<lfloor>log 2 ((2::real) ^ p)\<rfloor> = int p" by simp
  then have u: "ulp p (2 ^ p) = 2" by (simp add: ulp_def)
  obtain m where m: "p = Suc m" using assms by (cases p) simp_all
  have nz: "(2::real) ^ p \<noteq> 0" by simp
  have half: "(2::real) ^ p / 2 = of_int (2 ^ m)" by (simp add: m)
  have "fl_round p (2 ^ p) = of_int (round_half_even (2 ^ p / 2)) * 2"
    using fl_round_ulp [OF nz, of p] by (simp only: u)
  also have "\<dots> = of_int (2 ^ m) * 2" by (simp only: half round_half_even_int)
  also have "\<dots> = 2 ^ p" by (simp add: m)
  finally show ?thesis .
qed

lemma fl_round_nat:
  assumes "0 < p" and "n \<le> 2 ^ p"
  shows "fl_round p (real n) = real n"
proof (cases "n = 0")
  case True
  then show ?thesis by (simp add: fl_round_def)
next
  case False
  show ?thesis
  proof (cases "n = 2 ^ p")
    case True
    then show ?thesis using fl_round_pow2 [OF assms(1)] by simp
  next
    case False
    then have lt: "real n < 2 ^ p" using assms(2)
      by (metis le_neq_implies_less of_nat_less_iff of_nat_numeral of_nat_power)
    have pos: "0 < real n" using \<open>n \<noteq> 0\<close> by simp
    have "real_of_int (int n) \<le> fl_round p (real n)"
      using pos lt by (intro fl_round_ge_int) simp_all
    moreover have "fl_round p (real n) \<le> real_of_int (int n)"
      using pos lt by (intro fl_round_le_int) simp_all
    ultimately show ?thesis by simp
  qed
qed

lemma ceiling_fl_round:
  assumes pos: "0 < x" and small: "x < 2 ^ p"
    and gap: "x / 2 ^ p < x - (of_int \<lceil>x\<rceil> - 1)"
  shows "\<lceil>fl_round p x\<rceil> = \<lceil>x\<rceil>"
proof -
  have up: "fl_round p x \<le> of_int \<lceil>x\<rceil>"
    using pos small by (intro fl_round_le_int) simp_all
  have "\<bar>fl_round p x - x\<bar> \<le> ulp p x / 2" using pos by (intro fl_round_error) simp
  moreover have "ulp p x / 2 \<le> x / 2 ^ p" using ulp_le [OF pos, of p] by simp
  ultimately have "x - x / 2 ^ p \<le> fl_round p x" by linarith
  then have "of_int \<lceil>x\<rceil> - 1 < fl_round p x" using gap by linarith
  then show ?thesis using up by (intro ceiling_unique)
qed

section \<open>The grid dimensions in exact arithmetic\<close>

lemma sqrt_gap:
  assumes "0 < n"
  shows "1 \<le> (sqrt (real n) - (of_int \<lceil>sqrt (real n)\<rceil> - 1)) * (2 * sqrt (real n))"
proof -
  let ?x = "sqrt (real n)"
  let ?k = "\<lceil>?x\<rceil> - 1"
  have xpos: "0 < ?x" using assms by simp
  have k0: "0 \<le> ?k" using xpos by (simp add: less_ceiling_iff)
  have kx: "of_int ?k < ?x" by linarith
  have "(of_int ?k)\<^sup>2 < ?x\<^sup>2"
    using k0 kx by (intro power_strict_mono) simp_all
  then have "real_of_int (?k\<^sup>2) < real n" by simp
  then have "?k\<^sup>2 < int n" by linarith
  then have "?k\<^sup>2 + 1 \<le> int n" by simp
  then have "real_of_int (?k\<^sup>2 + 1) \<le> real n" by linarith
  then have "(of_int ?k)\<^sup>2 + 1 \<le> ?x\<^sup>2" by simp
  then have "1 \<le> (?x - of_int ?k) * (?x + of_int ?k)"
    by (simp add: power2_eq_square algebra_simps)
  also have "\<dots> \<le> (?x - of_int ?k) * (2 * ?x)"
    using kx by (intro mult_left_mono) simp_all
  finally show ?thesis by simp
qed

lemma sqrt_le_self: "0 < n \<Longrightarrow> sqrt (real n) \<le> real n"
proof -
  assume "0 < n"
  then have "1 \<le> real n" by simp
  then have "real n \<le> (real n)\<^sup>2" by (simp add: power2_eq_square)
  then show ?thesis by (intro real_le_lsqrt) simp_all
qed

lemma gap_from_product:
  fixes x P g c :: real
  assumes "0 < c" and "0 < P" and "x * c < P" and "1 \<le> g * c"
  shows "x / P < g"
proof -
  have "P * 1 \<le> P * (g * c)" using assms(2,4) by (intro mult_left_mono) simp_all
  then have "x * c < (P * g) * c" using assms(3) by (simp add: mult.assoc)
  then have "x < P * g" using assms(1) by (simp only: mult_less_cancel_right_pos)
  then show ?thesis using assms(2) by (simp add: pos_divide_less_eq mult.commute)
qed

lemma gridCols_exact:
  assumes pos: "0 < n" and bound: "n < 2 ^ 52"
  shows "gridCols n = nat \<lceil>sqrt (real n)\<rceil>"
proof -
  let ?x = "sqrt (real n)"
  have "n \<le> 2 ^ 53" using bound by simp
  then have conv: "c_double (real n) = real n"
    unfolding c_double_def by (intro fl_round_nat) simp_all
  have xpos: "0 < ?x" using pos by simp
  have xn: "?x \<le> real n" using pos by (rule sqrt_le_self)
  have nb: "real n < 2 ^ 52" using bound
    by (metis of_nat_less_iff of_nat_numeral of_nat_power)
  have small: "?x < 2 ^ 53" using xn nb by simp
  have "?x * ?x = real n" by simp
  then have "?x * ?x < 2 ^ 52" using nb by simp
  then have "?x * (2 * ?x) < 2 ^ 53" by simp
  moreover have "1 \<le> (?x - (of_int \<lceil>?x\<rceil> - 1)) * (2 * ?x)" using pos by (rule sqrt_gap)
  ultimately have gap: "?x / 2 ^ 53 < ?x - (of_int \<lceil>?x\<rceil> - 1)"
    using xpos by (intro gap_from_product [where c = "2 * ?x"]) simp_all
  have "\<lceil>fl_round 53 ?x\<rceil> = \<lceil>?x\<rceil>" using xpos small gap by (rule ceiling_fl_round)
  then show ?thesis using conv by (simp add: gridCols_def c_double_def)
qed


lemma ceiling_sqrt_bounds:
  assumes "0 < n"
  shows "(nat \<lceil>sqrt (real n)\<rceil> - 1)\<^sup>2 < n \<and> n \<le> (nat \<lceil>sqrt (real n)\<rceil>)\<^sup>2 \<and>
         0 < nat \<lceil>sqrt (real n)\<rceil> \<and> nat \<lceil>sqrt (real n)\<rceil> \<le> n"
proof -
  let ?x = "sqrt (real n)"
  let ?c = "nat \<lceil>?x\<rceil>"
  have xpos: "0 < ?x" using assms by simp
  then have cpos: "0 < \<lceil>?x\<rceil>" by (simp add: less_ceiling_iff)
  then have c: "real ?c = of_int \<lceil>?x\<rceil>" by simp
  have up: "?x \<le> real ?c" using c by linarith
  have low: "real ?c - 1 < ?x" using c by linarith
  have "real n = ?x\<^sup>2" by simp
  also have "\<dots> \<le> (real ?c)\<^sup>2" using up xpos by (intro power_mono) simp_all
  finally have "real n \<le> real (?c\<^sup>2)" by simp
  then have le: "n \<le> ?c\<^sup>2" by (simp only: of_nat_le_iff)
  have "1 \<le> ?c" using cpos by linarith
  then have c1: "real (?c - 1) = real ?c - 1" by (metis of_nat_1 of_nat_diff)
  have "(real (?c - 1))\<^sup>2 < ?x\<^sup>2"
  proof (rule power_strict_mono)
    show "real (?c - 1) < ?x" using low c1 by linarith
  qed simp_all
  then have "real ((?c - 1)\<^sup>2) < real n" by simp
  then have lt: "(?c - 1)\<^sup>2 < n" by (simp only: of_nat_less_iff)
  have "?x \<le> real n" using assms by (rule sqrt_le_self)
  then have "\<lceil>?x\<rceil> \<le> int n" by (simp add: ceiling_le_iff)
  then have "?c \<le> n" by linarith
  then show ?thesis using le lt cpos by simp
qed

lemma ceiling_sqrt_unique:
  assumes "(c - 1)\<^sup>2 < n" and "n \<le> c\<^sup>2" and "0 < (c::nat)"
  shows "nat \<lceil>sqrt (real n)\<rceil> = c"
proof -
  have "sqrt (real n) \<le> real c"
    using assms(2) by (intro real_le_lsqrt) (simp_all flip: of_nat_power)
  moreover have "real c - 1 < sqrt (real n)"
  proof -
    have "(real (c - 1))\<^sup>2 < real n" using assms(1) by (simp flip: of_nat_power)
    then have "real (c - 1) < sqrt (real n)" by (rule real_less_rsqrt)
    then show ?thesis using assms(3) by (simp add: of_nat_diff)
  qed
  ultimately have "\<lceil>sqrt (real n)\<rceil> = int c" by (intro ceiling_unique) simp_all
  then show ?thesis by simp
qed


lemma gridCols_full: "nat \<lceil>sqrt (real (16777216::nat))\<rceil> = 4096"
  by (rule ceiling_sqrt_unique) simp_all

lemma ceiling_fl_round_quotient:
  assumes npos: "0 < n" and cpos: "0 < c" and cn: "c \<le> n" and nb: "n < 2 ^ 24"
  shows "\<lceil>fl_round 24 (real n / real c)\<rceil> = \<lceil>real n / real c\<rceil>"
proof -
  define x where "x = real n / real c"
  define k where "k = \<lceil>x\<rceil> - 1"
  have rc: "0 < real c" using cpos by simp
  have xc: "x * real c = real n" using rc by (simp add: x_def)
  have xpos: "0 < x" using npos cpos by (simp add: x_def)
  have rn: "real n < 2 ^ 24" using nb by (metis of_nat_less_iff of_nat_numeral of_nat_power)
  have "1 \<le> real c" using cpos by simp
  then have "x * 1 \<le> x * real c" using xpos by (intro mult_left_mono) simp_all
  then have "x \<le> real n" using xc by simp
  then have small: "x < 2 ^ 24" using rn by simp
  have "of_int k < x" unfolding k_def by linarith
  then have "of_int k * real c < x * real c" using rc by (simp only: mult_less_cancel_right_pos)
  then have "real_of_int (k * int c) < real_of_int (int n)" using xc by simp
  then have "k * int c < int n" by (simp only: of_int_less_iff)
  then have "k * int c + 1 \<le> int n" by simp
  then have "real_of_int (k * int c + 1) \<le> real_of_int (int n)" by (simp only: of_int_le_iff)
  then have "of_int k * real c + 1 \<le> x * real c" using xc by simp
  then have one: "1 \<le> (x - of_int k) * real c" by (simp add: algebra_simps)
  have two: "x * real c < 2 ^ 24" using rn xc by simp
  have "x / 2 ^ 24 < x - of_int k" using rc _ two one by (rule gap_from_product) simp
  then have gap: "x / 2 ^ 24 < x - (of_int \<lceil>x\<rceil> - 1)" by (simp add: k_def)
  have "\<lceil>fl_round 24 x\<rceil> = \<lceil>x\<rceil>" using xpos small gap by (rule ceiling_fl_round)
  then show ?thesis by (simp add: x_def)
qed

lemma gridRows_exact:
  assumes pos: "0 < n" and bound: "n \<le> 2 ^ 24"
  shows "gridRows n = nat \<lceil>real n / real (gridCols n)\<rceil>"
proof -
  have "n < 2 ^ 52" using bound by simp
  then have c: "gridCols n = nat \<lceil>sqrt (real n)\<rceil>" using pos by (intro gridCols_exact)
  let ?c = "gridCols n"
  have cpos: "0 < ?c" and cn: "?c \<le> n" using ceiling_sqrt_bounds [OF pos] c by simp_all
  have fn: "fl_round 24 (real n) = real n" using bound by (intro fl_round_nat) simp_all
  have "?c \<le> 2 ^ 24" using cn bound by simp
  then have fc: "fl_round 24 (real ?c) = real ?c" by (intro fl_round_nat) simp_all
  have "\<lceil>fl_round 24 (real n / real ?c)\<rceil> = \<lceil>real n / real ?c\<rceil>"
  proof (cases "n = 2 ^ 24")
    case True
    then have "?c = 4096" using c gridCols_full by simp
    then have "real n / real ?c = real 4096" using True by simp
    moreover have "fl_round 24 (real 4096) = real 4096" by (intro fl_round_nat) simp_all
    ultimately show ?thesis by simp
  next
    case False
    then have "n < 2 ^ 24" using bound by simp
    then show ?thesis using pos cpos cn by (intro ceiling_fl_round_quotient)
  qed
  then show ?thesis using fn fc by (simp add: gridRows_def c_float_def)
qed

lemma ceiling_quotient_bounds:
  assumes "0 < n" and "0 < c"
  shows "(nat \<lceil>real n / real c\<rceil> - 1) * c < n \<and> n \<le> nat \<lceil>real n / real c\<rceil> * c \<and>
         0 < nat \<lceil>real n / real c\<rceil>"
proof -
  define x where "x = real n / real c"
  define r where "r = nat \<lceil>x\<rceil>"
  have rc: "0 < real c" using assms by simp
  have xc: "x * real c = real n" using rc by (simp add: x_def)
  have xpos: "0 < x" using assms by (simp add: x_def)
  then have rpos: "0 < \<lceil>x\<rceil>" by (simp add: less_ceiling_iff)
  then have r: "real r = of_int \<lceil>x\<rceil>" by (simp add: r_def)
  have "x \<le> real r" using r by linarith
  then have "x * real c \<le> real r * real c" using rc by (intro mult_right_mono) simp_all
  then have "real n \<le> real (r * c)" using xc by simp
  then have le: "n \<le> r * c" by (simp only: of_nat_le_iff)
  have "1 \<le> r" unfolding r_def using rpos by linarith
  then have r1: "real (r - 1) = real r - 1" by (metis of_nat_1 of_nat_diff)
  have "real r - 1 < x" using r by linarith
  then have "real (r - 1) < x" using r1 by simp
  then have "real (r - 1) * real c < x * real c" using rc by (simp only: mult_less_cancel_right_pos)
  then have "real ((r - 1) * c) < real n" using xc by simp
  then have lt: "(r - 1) * c < n" by (simp only: of_nat_less_iff)
  have "0 < r" using \<open>1 \<le> r\<close> by simp
  then show ?thesis using le lt unfolding r_def x_def by blast
qed


lemma ulp_large:
  assumes "2 ^ e \<le> x" and "x < 2 ^ Suc e" and "Suc e = p + d"
  shows "ulp p x = 2 ^ d"
proof -
  have pos: "0 < x" using assms(1) by (smt (verit) zero_less_power)
  have "2 powr real_of_int (int e) \<le> x \<and> x < 2 powr real_of_int (int e + 1)"
    using assms(1,2) by (simp add: powr_realpow powr_add)
  then have "\<lfloor>log 2 x\<rfloor> = int e" using pos by (simp add: floor_log_eq_powr_iff)
  moreover have "real_of_int (int e) - real_of_int (int p) + 1 = real d"
    using assms(3) by simp
  ultimately have "ulp p x = 2 powr real d" using pos by (simp add: ulp_def)
  then show ?thesis by (simp add: powr_realpow)
qed

lemma c_float_33634201: "c_float 33634201 = 33634200"
proof -
  have u: "ulp 24 (33634201::real) = 2 ^ 2"
    by (rule ulp_large [where e = 25]) simp_all
  have "round_half_even (33634201 / 4) = 8408550"
    by (simp add: round_half_even_def Let_def)
  then show ?thesis using u by (simp add: c_float_def fl_round_ulp)
qed

lemma gridCols_33634201: "gridCols 33634201 = 5800"
proof -
  have "gridCols 33634201 = nat \<lceil>sqrt (real 33634201)\<rceil>"
    by (rule gridCols_exact) simp_all
  also have "\<dots> = 5800" by (rule ceiling_sqrt_unique) simp_all
  finally show ?thesis .
qed

lemma gridRows_33634201: "gridRows 33634201 = 5799"
proof -
  have c: "c_float 5800 = 5800"
    using fl_round_nat [of 24 5800] by (simp add: c_float_def)
  have r: "c_float 5799 = 5799"
    using fl_round_nat [of 24 5799] by (simp add: c_float_def)
  show ?thesis
    by (simp add: gridRows_def gridCols_33634201 c_float_33634201 c r)
qed

lemma gridCols_3: "gridCols 3 = 2"
proof -
  have "gridCols 3 = nat \<lceil>sqrt (real 3)\<rceil>" by (rule gridCols_exact) simp_all
  also have "\<dots> = 2" by (rule ceiling_sqrt_unique) simp_all
  finally show ?thesis .
qed

lemma gridRows_3: "gridRows 3 = 2"
proof -
  have "gridRows 3 = nat \<lceil>real 3 / real (gridCols 3)\<rceil>" by (rule gridRows_exact) simp_all
  then show ?thesis by (simp add: gridCols_3)
qed

section \<open>The claim about the grid layout\<close>

lemma concat_rows:
  "concat (map (\<lambda>i. map (\<lambda>j. f (i * c + j)) [0..<c]) [0..<r]) = map f [0..<r * c]"
proof (induction r)
  case 0
  then show ?case by simp
next
  case (Suc r)
  have "map (\<lambda>j. f (r * c + j)) [0..<c] = map f (map (\<lambda>j. j + r * c) [0..<c])"
    by (simp add: add.commute)
  also have "\<dots> = map f [r * c..<r * c + c]" by (simp only: map_add_upt add.commute)
  finally have row: "map (\<lambda>j. f (r * c + j)) [0..<c] = map f [r * c..<r * c + c]" .
  have "[0..<r * c + c] = [0..<r * c] @ [r * c..<r * c + c]"
    by (rule upt_add_eq_append) simp
  moreover have "Suc r * c = r * c + c" by simp
  ultimately have "[0..<Suc r * c] = [0..<r * c] @ [r * c..<r * c + c]"
    by (simp only:)
  then show ?case using Suc row by (simp del: mult_Suc)
qed

lemma concat_arrange_grid:
  assumes "length lf = n" and "n \<le> r * c"
  shows "concat (arrange_grid n r c lf) = lf @ replicate (r * c - n) (Mat_zeros 480 640 CV_8UC3)"
proof -
  let ?g = "\<lambda>idx. if idx < n then lf ! idx else Mat_zeros 480 640 CV_8UC3"
  have "concat (arrange_grid n r c lf) = map ?g [0..<r * c]"
    unfolding arrange_grid_def grid_cell_def Let_def by (rule concat_rows)
  also have "[0..<r * c] = [0..<n] @ [n..<r * c]"
    using assms(2) by (metis le_add_diff_inverse upt_add_eq_append zero_le)
  also have "map ?g ([0..<n] @ [n..<r * c]) = map ?g [0..<n] @ map ?g [n..<r * c]" by simp
  also have "map ?g [0..<n] = lf" using assms(1) by (auto intro: nth_equalityI)
  also have "map ?g [n..<r * c] = replicate (r * c - n) (Mat_zeros 480 640 CV_8UC3)"
    by (auto intro: nth_equalityI)
  finally show ?thesis .
qed

lemma nth_arrange_grid:
  "i < r \<Longrightarrow> j < c \<Longrightarrow>
   arrange_grid n r c lf ! i ! j =
     (if i * c + j < n then lf ! (i * c + j) else Mat_zeros 480 640 CV_8UC3)"
  by (simp add: arrange_grid_def grid_cell_def)

lemma Mat_zeros_frame:
  "Mat_zeros 480 640 CV_8UC3 =
     \<lparr>mat_rows = 480, mat_cols = 640, mat_channels = 3, mat_data = replicate 921600 0,
      mat_text = []\<rparr>"
  by (simp add: Mat_zeros_def CV_8UC3_def cv_channels_def)

lemma stamped_frame_dims:
  "mat_rows (stamped_frame ts pix) = 480 \<and> mat_cols (stamped_frame ts pix) = 640 \<and>
   mat_channels (stamped_frame ts pix) = 3"
  by (simp add: stamped_frame_def putText_def resized_frame_def CV_8UC3_def cv_channels_def)


text \<open>
  Claim C4.  \<open>numCameras\<close> is the number of cameras attached to the host; each of them
  is served by a thread, a queue and a 640 x 480 cell of its own.  For every camera
  count from 1 to \<open>2^24 = 16777216\<close> the floating-point computation yields the exact
  values: \<open>gridCols = ceil(sqrt(N))\<close>, the least \<open>c\<close> with \<open>N \<le> c^2\<close>, and
  \<open>gridRows = ceil(N / gridCols)\<close>, the least \<open>r\<close> with \<open>N \<le> r * gridCols\<close>, so that the
  grid read row by row is the \<open>N\<close> frames followed by \<open>gridRows * gridCols - N\<close> blank
  cells.  For every \<open>N\<close> whatever, the grid has \<open>gridRows\<close> rows of \<open>gridCols\<close> cells, and
  the cell in row \<open>i\<close> and column \<open>j\<close> holds frame \<open>i * gridCols + j\<close> when that index is
  below \<open>N\<close> and \<open>Mat::zeros(480, 640, CV_8UC3)\<close> otherwise.  The blank cell has 480
  rows, 640 columns and 3 channels, all bytes zero, which are the dimensions of every
  frame \<open>AcquireImages\<close> pushes.  For \<open>N = 3\<close>: 2 columns, 2 rows, one blank cell.  The
  column count is exact for every positive \<open>int\<close>.
\<close>

theorem grid_layout:
  assumes len: "length lf = n"
  shows "(1 \<le> n \<and> n \<le> 16777216 \<longrightarrow>
            gridCols n = nat \<lceil>sqrt (real n)\<rceil> \<and>
            gridRows n = nat \<lceil>real n / real (gridCols n)\<rceil> \<and>
            (gridCols n - 1)\<^sup>2 < n \<and> n \<le> (gridCols n)\<^sup>2 \<and>
            (gridRows n - 1) * gridCols n < n \<and> n \<le> gridRows n * gridCols n \<and>
            concat (arrange_grid n (gridRows n) (gridCols n) lf) =
              lf @ replicate (gridRows n * gridCols n - n) (Mat_zeros 480 640 CV_8UC3)) \<and>
         length (arrange_grid n (gridRows n) (gridCols n) lf) = gridRows n \<and>
         (\<forall>i j. i < gridRows n \<and> j < gridCols n \<longrightarrow>
            length (arrange_grid n (gridRows n) (gridCols n) lf ! i) = gridCols n \<and>
            arrange_grid n (gridRows n) (gridCols n) lf ! i ! j =
              (if i * gridCols n + j < n then lf ! (i * gridCols n + j)
               else Mat_zeros 480 640 CV_8UC3)) \<and>
         Mat_zeros 480 640 CV_8UC3 =
           \<lparr>mat_rows = 480, mat_cols = 640, mat_channels = 3, mat_data = replicate 921600 0,
            mat_text = []\<rparr> \<and>
         mat_rows (stamped_frame ts pix) = 480 \<and> mat_cols (stamped_frame ts pix) = 640 \<and>
         mat_channels (stamped_frame ts pix) = 3 \<and>
         gridCols 3 = 2 \<and> gridRows 3 = 2 \<and> gridRows 3 * gridCols 3 - 3 = 1 \<and>
         (0 < m \<and> m < 2147483648 \<longrightarrow> gridCols m = nat \<lceil>sqrt (real m)\<rceil>)"
proof -
  have wide: "gridCols m = nat \<lceil>sqrt (real m)\<rceil>" if "0 < m \<and> m < 2147483648"
    using that by (intro gridCols_exact) simp_all
  have dims: "gridCols n = nat \<lceil>sqrt (real n)\<rceil> \<and>
            gridRows n = nat \<lceil>real n / real (gridCols n)\<rceil> \<and>
            (gridCols n - 1)\<^sup>2 < n \<and> n \<le> (gridCols n)\<^sup>2 \<and>
            (gridRows n - 1) * gridCols n < n \<and> n \<le> gridRows n * gridCols n \<and>
            concat (arrange_grid n (gridRows n) (gridCols n) lf) =
              lf @ replicate (gridRows n * gridCols n - n) (Mat_zeros 480 640 CV_8UC3)"
    if range: "1 \<le> n \<and> n \<le> 16777216"
  proof -
    have n0: "0 < n" using range by simp
    have "n < 2 ^ 52" using range by simp
    then have c: "gridCols n = nat \<lceil>sqrt (real n)\<rceil>" using n0 by (intro gridCols_exact)
    have "n \<le> 2 ^ 24" using range by simp
    then have r: "gridRows n = nat \<lceil>real n / real (gridCols n)\<rceil>"
      using n0 by (intro gridRows_exact)
    have cb: "(gridCols n - 1)\<^sup>2 < n \<and> n \<le> (gridCols n)\<^sup>2 \<and> 0 < gridCols n"
      using ceiling_sqrt_bounds [OF n0] c by simp
    then have rb: "(gridRows n - 1) * gridCols n < n \<and> n \<le> gridRows n * gridCols n"
      using ceiling_quotient_bounds [OF n0, of "gridCols n"] r by simp
    have cat: "concat (arrange_grid n (gridRows n) (gridCols n) lf) =
             lf @ replicate (gridRows n * gridCols n - n) (Mat_zeros 480 640 CV_8UC3)"
      using len rb by (intro concat_arrange_grid) simp_all
    show ?thesis using c r cb rb cat by blast
  qed
  have rows: "length (arrange_grid n (gridRows n) (gridCols n) lf) = gridRows n"
    by (simp add: arrange_grid_def)
  have cols: "length (arrange_grid n (gridRows n) (gridCols n) lf ! i) = gridCols n"
    if "i < gridRows n" for i
    using that by (simp add: arrange_grid_def)
  have three: "gridRows 3 * gridCols 3 - 3 = 1" by (simp add: gridCols_3 gridRows_3)
  show ?thesis
    using dims rows cols three nth_arrange_grid Mat_zeros_frame stamped_frame_dims
      gridCols_3 gridRows_3 wide
    by blast
qed

text \<open>An instance of C4: three frames in a 2 x 2 grid.\<close>

theorem grid_layout_witness:
  "gridCols 3 = 2 \<and> gridRows 3 = 2 \<and>
   arrange_grid 3 (gridRows 3) (gridCols 3)
     [stamped_frame 100 [], stamped_frame 150 [], stamped_frame 125 []] =
     [[stamped_frame 100 [], stamped_frame 150 []],
      [stamped_frame 125 [], Mat_zeros 480 640 CV_8UC3]] \<and>
   concat (arrange_grid 3 (gridRows 3) (gridCols 3)
     [stamped_frame 100 [], stamped_frame 150 [], stamped_frame 125 []]) =
     [stamped_frame 100 [], stamped_frame 150 [], stamped_frame 125 [],
      Mat_zeros 480 640 CV_8UC3] \<and>
   arrange_grid 3 (gridRows 3) (gridCols 3)
     [stamped_frame 100 [], stamped_frame 150 [], stamped_frame 125 []] ! 1 ! 1 =
     Mat_zeros 480 640 CV_8UC3 \<and>
   gridCols 2147483647 = nat \<lceil>sqrt 2147483647\<rceil>"
proof -
  let ?lf = "[stamped_frame 100 [], stamped_frame 150 [], stamped_frame 125 []]"
  have h: "length ?lf = 3" by simp
  have range: "1 \<le> (3::nat) \<and> (3::nat) \<le> 16777216" by simp
  note g = grid_layout [OF h]
  from g have c: "gridCols 3 = 2" and r: "gridRows 3 = 2" by blast+
  from g range have cat: "concat (arrange_grid 3 (gridRows 3) (gridCols 3) ?lf) =
      ?lf @ replicate (gridRows 3 * gridCols 3 - 3) (Mat_zeros 480 640 CV_8UC3)"
    by blast
  have "(1::nat) < gridRows 3 \<and> (1::nat) < gridCols 3" by (simp add: c r)
  with g have "arrange_grid 3 (gridRows 3) (gridCols 3) ?lf ! 1 ! 1 =
      (if 1 * gridCols 3 + 1 < 3 then ?lf ! (1 * gridCols 3 + 1)
       else Mat_zeros 480 640 CV_8UC3)"
    by blast
  then have blank: "arrange_grid 3 (gridRows 3) (gridCols 3) ?lf ! 1 ! 1 =
      Mat_zeros 480 640 CV_8UC3"
    by (simp add: c)
  have grid: "arrange_grid 3 2 2 ?lf =
     [[stamped_frame 100 [], stamped_frame 150 []],
      [stamped_frame 125 [], Mat_zeros 480 640 CV_8UC3]]"
    by (simp add: arrange_grid_def grid_cell_def numeral_2_eq_2 numeral_3_eq_3)
  have wide: "gridCols 2147483647 = nat \<lceil>sqrt 2147483647\<rceil>"
    using grid_layout [OF h, where m = 2147483647] by simp
  show ?thesis using cat grid blank wide by (simp add: c r)
qed

lemma ceil_true: "nat \<lceil>(33634201::real) / 5800\<rceil> = 5800"
proof -
  have "\<lceil>(33634201::real) / 5800\<rceil> = 5800"
    by (rule ceiling_unique) simp_all
  then show ?thesis by simp
qed

text \<open>
  The range given for the row count is that of the integers a \<open>float\<close> holds
  exactly.  Far beyond it the conversion \<open>(float)numCameras\<close> rounds: 33634201 becomes
  33634200, the quotient by the 5800 columns is exactly 5799, and \<open>gridRows\<close> is 5799
  where \<open>ceil(N / columns)\<close> is 5800.
\<close>

lemma gridRows_beyond_float_range:
  "gridCols 33634201 = 5800 \<and> gridRows 33634201 = 5799 \<and>
   nat \<lceil>real 33634201 / real (gridCols 33634201)\<rceil> = 5800 \<and>
   gridRows 33634201 * gridCols 33634201 < 33634201"
  using ceil_true by (simp add: gridCols_33634201 gridRows_33634201)

section \<open>The claim about the timestamp difference\<close>

lemma sint_diff_exact:
  fixes a b :: "64 word"
  assumes "- (2 ^ 63) \<le> uint a - uint b" and "uint a - uint b < 2 ^ 63"
  shows "sint (a - b) = uint a - uint b"
proof -
  have "uint (a - b) = take_bit 64 (uint a - uint b)"
    by (simp add: uint_word_ariths take_bit_eq_mod)
  then have "sint (a - b) = signed_take_bit 63 (take_bit 64 (uint a - uint b))"
    by (simp add: sint_uint)
  also have "\<dots> = signed_take_bit 63 (uint a - uint b)"
    by (simp add: signed_take_bit_take_bit)
  also have "\<dots> = uint a - uint b"
    using assms by (intro signed_take_bit_int_eq_self) simp_all
  finally show ?thesis .
qed

lemma gridCols_2: "gridCols 2 = 2"
proof -
  have "gridCols 2 = nat \<lceil>sqrt (real 2)\<rceil>" by (rule gridCols_exact) simp_all
  also have "\<dots> = 2" by (rule ceiling_sqrt_unique) simp_all
  finally show ?thesis .
qed

lemma gridRows_2: "gridRows 2 = 1"
proof -
  have "gridRows 2 = nat \<lceil>real 2 / real (gridCols 2)\<rceil>" by (rule gridRows_exact) simp_all
  then show ?thesis by (simp add: gridCols_2)
qed

lemma to_string_50: "to_string_int (sint ((150::64 word) - 100)) = ''50''"
  by (simp add: to_string_int_def to_string_nat.simps digit_char_def)


lemma init_sys_2:
  "init_sys 2 =
     \<lparr>frameQueues = [SafeQueue_new, SafeQueue_new], isRunning = True,
      producers = [PCheck, PCheck], display = SCheck,
      latestFrames = [Mat_empty, Mat_empty], latestTimestamps = [0, 0],
      console = [], shown = [], sleeps = 0,
      produced = [], got = [], framesets = [], dropped = []\<rparr>"
  by (simp add: init_sys_def numeral_2_eq_2)

lemma draw_diffs_2:
  "draw_diffs 2 [t0, t1] [a, b] = [a, putText b (diff_caption t1 t0) (10, 60)]"
  by (simp add: draw_diffs_def numeral_2_eq_2)

lemma arrange_grid_2: "arrange_grid 2 (Suc 0) 2 [a, b] = [[a, b]]"
  by (simp add: arrange_grid_def grid_cell_def numeral_2_eq_2)

lemma mat_text_putText: "mat_text (putText img txt org) = mat_text img @ [(txt, fst org, snd org)]"
  by (simp add: putText_def)

lemma mat_text_stamped:
  "mat_text (stamped_frame ts pix) = [(''Timestamp: '' @ to_string_nat (unat ts) @ '' ns'', 10, 30)]"
  by (simp add: stamped_frame_def putText_def resized_frame_def)

lemma demo_stamps:
  "to_string_nat 100 = ''100''"
  "to_string_nat 150 = ''150''"
  "to_string_nat 200 = ''200''"
  "to_string_nat 250 = ''250''"
  "to_string_nat 300 = ''300''"
  "to_string_nat 350 = ''350''"
  by code_simp+

lemma demo_captions:
  "diff_caption 150 100 = ''Diff with Cam0: 50 ns''"
  "diff_caption 250 200 = ''Diff with Cam0: 50 ns''"
  "diff_caption 350 300 = ''Diff with Cam0: 50 ns''"
  by (simp_all add: diff_caption_def to_string_int_def to_string_nat.simps digit_char_def)

lemmas sys_eval_2 =
  run_def init_sys_2 producer_step_def display_step_def acquire_body_def render_cycle_def
  push_def pop_def lock_mutex_def SafeQueue_new_def Let_def FrameData_of_def

lemma demo_diffs_run:
  "shown (run 2 demo_diffs (init_sys 2)) =
     [[[stamped_frame 100 [], putText (stamped_frame 150 []) (diff_caption 150 100) (10, 60)]],
      [[stamped_frame 200 [], putText (stamped_frame 250 []) (diff_caption 250 200) (10, 60)]],
      [[stamped_frame 300 [], putText (stamped_frame 350 []) (diff_caption 350 300) (10, 60)]]]"
  by (simp add: demo_diffs_def sys_eval_2 gridCols_2 gridRows_2 draw_diffs_2 arrange_grid_2)

lemma demo_diffs_shown:
  "map (\<lambda>g. map mat_text (concat g)) (shown (run 2 demo_diffs (init_sys 2))) =
     [[[(''Timestamp: 100 ns'', 10, 30)],
       [(''Timestamp: 150 ns'', 10, 30), (''Diff with Cam0: 50 ns'', 10, 60)]],
      [[(''Timestamp: 200 ns'', 10, 30)],
       [(''Timestamp: 250 ns'', 10, 30), (''Diff with Cam0: 50 ns'', 10, 60)]],
      [[(''Timestamp: 300 ns'', 10, 30)],
       [(''Timestamp: 350 ns'', 10, 30), (''Diff with Cam0: 50 ns'', 10, 60)]]]"
  by (simp add: demo_diffs_run mat_text_putText mat_text_stamped demo_stamps demo_captions)


lemma collected_state:
  assumes iv: "inv n s" and at: "display s = SCollect i" and fin: "\<not> i < n"
  shows "length (got s) = n \<and> latestFrames s = map frame (got s) \<and>
         latestTimestamps s = map timestamp (got s)"
proof -
  have wf: "wf_sys n s" and co: "collecting s" using iv by (simp_all add: inv_def)
  have "i \<le> n" using wf at by (simp add: wf_sys_def)
  then have "i = n" using fin by simp
  then show ?thesis using co at wf by (simp add: collecting_def wf_sys_def)
qed

lemma caption_minus_50: "diff_caption 150 200 = ''Diff with Cam0: -50 ns''"
  by (simp add: diff_caption_def to_string_int_def to_string_nat.simps digit_char_def)

text \<open>
  Claim C9.  When a collection attempt has completed, the frame kept for every camera
  \<open>j > 0\<close> is the popped frame with one more caption at (10, 60): \<open>Diff with Cam0: d ns\<close>,
  where \<open>d\<close> is the 64-bit difference of that cycle's timestamp of camera \<open>j\<close> and of
  camera 0, read as a signed number; the frame of camera 0 gets no caption; these frames
  are what the grid shows.  Whenever the mathematical difference fits in 64 signed bits,
  \<open>d\<close> is that difference.  In the scenario with timestamps 100, 200, 300 and
  150, 250, 350 the three grids shown carry the difference 50.
\<close>

theorem timestamp_diff:
  assumes iv: "inv n s" and at: "display s = SCollect i" and fin: "\<not> i < n"
    and j0: "0 < j" and jn: "j < n"
  shows "latestFrames (display_step n key s) ! j =
           putText (frame (got s ! j))
             (diff_caption (timestamp (got s ! j)) (timestamp (got s ! 0))) (10, 60) \<and>
         latestFrames (display_step n key s) ! 0 = frame (got s ! 0) \<and>
         shown (display_step n key s) =
           shown s @ [arrange_grid n (gridRows n) (gridCols n)
                        (latestFrames (display_step n key s))] \<and>
         diff_caption ti t0 = ''Diff with Cam0: '' @ to_string_int (sint (ti - t0)) @ '' ns'' \<and>
         (- (2 ^ 63) \<le> uint ti - uint t0 \<and> uint ti - uint t0 < 2 ^ 63 \<longrightarrow>
            sint (ti - t0) = uint ti - uint t0) \<and>
         map (\<lambda>g. map mat_text (concat g)) (shown (run 2 demo_diffs (init_sys 2))) =
           [[[(''Timestamp: 100 ns'', 10, 30)],
             [(''Timestamp: 150 ns'', 10, 30), (''Diff with Cam0: 50 ns'', 10, 60)]],
            [[(''Timestamp: 200 ns'', 10, 30)],
             [(''Timestamp: 250 ns'', 10, 30), (''Diff with Cam0: 50 ns'', 10, 60)]],
            [[(''Timestamp: 300 ns'', 10, 30)],
             [(''Timestamp: 350 ns'', 10, 30), (''Diff with Cam0: 50 ns'', 10, 60)]]]"
proof -
  have cs: "length (got s) = n" "latestFrames s = map frame (got s)"
    "latestTimestamps s = map timestamp (got s)"
    using collected_state [OF iv at fin] by simp_all
  have ds: "display_step n key s = render_cycle n key s" using at fin by (rule display_step_render)
  have lf: "latestFrames (display_step n key s) =
            draw_diffs n (latestTimestamps s) (latestFrames s)"
    by (simp add: ds render_cycle_def Let_def)
  have jl: "j < length (latestFrames s)" and zl: "0 < length (latestFrames s)"
    using cs jn by simp_all
  have a: "latestFrames (display_step n key s) ! j =
           putText (frame (got s ! j))
             (diff_caption (timestamp (got s ! j)) (timestamp (got s ! 0))) (10, 60)"
    using nth_draw_diffs [OF jl, of n "latestTimestamps s"] j0 jn cs by (simp add: lf)
  have b: "latestFrames (display_step n key s) ! 0 = frame (got s ! 0)"
    using nth_draw_diffs [OF zl, of n "latestTimestamps s"] jn cs by (simp add: lf)
  have c: "shown (display_step n key s) =
           shown s @ [arrange_grid n (gridRows n) (gridCols n)
                        (latestFrames (display_step n key s))]"
    by (simp add: ds render_cycle_def Let_def)
  have d: "sint (ti - t0) = uint ti - uint t0"
    if "- (2 ^ 63) \<le> uint ti - uint t0 \<and> uint ti - uint t0 < 2 ^ 63"
    using that by (intro sint_diff_exact) simp_all
  show ?thesis using a b c d demo_diffs_shown by (simp add: diff_caption_def)
qed

text \<open>An instance of C9: camera 0 at 200 and camera 1 at 150 give the caption -50.\<close>

theorem timestamp_diff_witness:
  "inv 2 (run 2 (demo_ready @ [Display CHR ''x'', Display CHR ''x'']) (init_sys 2)) \<and>
   display (run 2 (demo_ready @ [Display CHR ''x'', Display CHR ''x'']) (init_sys 2)) =
     SCollect 2 \<and>
   map timestamp (got (run 2 (demo_ready @ [Display CHR ''x'', Display CHR ''x''])
                         (init_sys 2))) = [200, 150] \<and>
   mat_text (latestFrames
      (run 2 (demo_ready @ [Display CHR ''x'', Display CHR ''x'', Display CHR ''x''])
         (init_sys 2)) ! 1) =
     [(''Timestamp: 150 ns'', 10, 30), (''Diff with Cam0: -50 ns'', 10, 60)]"
proof -
  let ?t = "run 2 (demo_ready @ [Display CHR ''x'', Display CHR ''x'']) (init_sys 2)"
  have iv: "inv 2 ?t" by (rule inv_reachable)
  have at: "display ?t = SCollect 2" by (rule demo_collected_state)
  have g: "got ?t = [pushed_item 0 200 [], pushed_item 1 150 []]"
    by (simp add: demo_ready_def sys_eval item_eval)
  have step: "run 2 (demo_ready @ [Display CHR ''x'', Display CHR ''x'', Display CHR ''x''])
                 (init_sys 2) = display_step 2 CHR ''x'' ?t"
    by (simp add: run_def)
  have "latestFrames (display_step 2 CHR ''x'' ?t) ! 1 =
        putText (frame (got ?t ! 1))
          (diff_caption (timestamp (got ?t ! 1)) (timestamp (got ?t ! 0))) (10, 60)"
    using timestamp_diff [OF iv at, of 1 "CHR ''x''" 0 0] by simp
  then have "mat_text (latestFrames (display_step 2 CHR ''x'' ?t) ! 1) =
             [(''Timestamp: 150 ns'', 10, 30), (''Diff with Cam0: -50 ns'', 10, 60)]"
    by (simp add: g pushed_item_def FrameData_of_def mat_text_putText mat_text_stamped
        demo_stamps caption_minus_50)
  then show ?thesis using iv at g by (simp only: step) (simp add: pushed_item_def FrameData_of_def)
qed

section \<open>The claims about setup and main\<close>

lemma set_node_cases:
  "set_node cam nm name entry tr = Inl x \<Longrightarrow> snd x = tr"
  "set_node cam nm name entry tr = Inr tr' \<Longrightarrow> tr' = tr @ [NodeSet cam name entry]"
  by (auto simp: set_node_def split: option.splits)

lemma ConfigureTrigger_try_trace:
  "(\<forall>x. ConfigureTrigger_try cam nm tr = Inl x \<longrightarrow>
       (\<exists>more. snd x = tr @ more \<and> \<not> list_ex is_spawn more)) \<and>
   (\<forall>r tr'. ConfigureTrigger_try cam nm tr = Inr (r, tr') \<longrightarrow>
       (r = 0 \<or> r = - 1) \<and> (\<exists>more. tr' = tr @ more \<and> \<not> list_ex is_spawn more))"
  unfolding ConfigureTrigger_try_def and_then_def set_node_def
  by (auto simp: is_spawn_def split: option.splits sum.splits if_splits)


lemma ConfigureTrigger_trace:
  "\<exists>r more. ConfigureTrigger cam nm tr = (r, tr @ more) \<and> (r = 0 \<or> r = - 1) \<and>
     \<not> list_ex is_spawn more"
proof (cases "ConfigureTrigger_try cam nm
                (tr @ [Cout [], Cout ''* CONFIGURING TRIGGER AND TIMESTAMP *''])")
  case (Inl x)
  obtain what tr' where x: "x = (what, tr')" by (cases x)
  obtain more where "tr' = (tr @ [Cout [], Cout ''* CONFIGURING TRIGGER AND TIMESTAMP *'']) @ more"
    and "\<not> list_ex is_spawn more"
    using ConfigureTrigger_try_trace Inl x by fastforce
  then show ?thesis using Inl x by (simp add: ConfigureTrigger_def is_spawn_def)
next
  case (Inr y)
  obtain r tr' where y: "y = (r, tr')" by (cases y)
  have "(r = 0 \<or> r = - 1) \<and>
        (\<exists>more. tr' = (tr @ [Cout [], Cout ''* CONFIGURING TRIGGER AND TIMESTAMP *'']) @ more \<and>
           \<not> list_ex is_spawn more)"
    using ConfigureTrigger_try_trace Inr y by blast
  then show ?thesis using Inr y by (auto simp: ConfigureTrigger_def is_spawn_def)
qed

lemma ConfigureTrigger_try_result:
  "map_sum fst fst (ConfigureTrigger_try cam nm tr) = map_sum fst fst (ConfigureTrigger_try 0 nm [])"
  unfolding ConfigureTrigger_try_def and_then_def set_node_def
  by (auto split: option.splits sum.splits if_splits)


lemma ConfigureTrigger_result:
  "fst (ConfigureTrigger cam nm tr) = fst (ConfigureTrigger 0 nm [])"
proof -
  have "fst (ConfigureTrigger c nm t) =
        (case map_sum fst fst (ConfigureTrigger_try c nm
                 (t @ [Cout [], Cout ''* CONFIGURING TRIGGER AND TIMESTAMP *''])) of
           Inl what \<Rightarrow> - 1 | Inr r \<Rightarrow> r)" for c t
    by (simp add: ConfigureTrigger_def split: sum.splits prod.splits)
  then show ?thesis using ConfigureTrigger_try_result by metis
qed

lemma setup_camera_throws:
  assumes "setup_throws cam"
  shows "\<exists>what more. setup_camera i cam st = Inl (what, snd st @ more) \<and>
           \<not> list_ex is_spawn more"
proof -
  obtain r more where c: "ConfigureTrigger i (GetNodeMap cam) (snd st @ [CamInit i]) =
      (r, (snd st @ [CamInit i]) @ more)" and m: "\<not> list_ex is_spawn more"
    using ConfigureTrigger_trace by blast
  show ?thesis
  proof (cases "init_fault cam")
    case (Some what)
    then have "setup_camera i cam st = Inl (what, snd st @ [])" by (simp add: setup_camera_def)
    moreover have "\<not> list_ex is_spawn []" by simp
    ultimately show ?thesis by blast
  next
    case None
    show ?thesis
    proof (cases "writable (GetNodeMap cam ''AcquisitionMode'') \<and>
                  set_fault (GetNodeMap cam ''AcquisitionMode'') ''Continuous'' \<noteq> None")
      case True
      then obtain what where
        "set_fault (GetNodeMap cam ''AcquisitionMode'') ''Continuous'' = Some what" by blast
      then have "setup_camera i cam st = Inl (what, snd st @ ([CamInit i] @ more))"
        using None True c by (simp add: setup_camera_def and_then_def set_node_def)
      moreover have "\<not> list_ex is_spawn ([CamInit i] @ more)" using m by (simp add: is_spawn_def)
      ultimately show ?thesis by blast
    next
      case False
      then obtain what where b: "begin_fault cam = Some what"
        using assms None by (auto simp: setup_throws_def)
      have "\<exists>more'. setup_camera i cam st = Inl (what, snd st @ ([CamInit i] @ more @ more')) \<and>
                   \<not> list_ex is_spawn more'"
        using None False c b
        by (auto simp: setup_camera_def and_then_def set_node_def is_spawn_def split: option.splits)
      then obtain more' where
        "setup_camera i cam st = Inl (what, snd st @ ([CamInit i] @ more @ more'))"
        and "\<not> list_ex is_spawn more'" by blast
      moreover from this have "\<not> list_ex is_spawn ([CamInit i] @ more @ more')"
        using m by (simp add: is_spawn_def)
      ultimately show ?thesis by blast
    qed
  qed
qed

lemma setup_camera_ok:
  assumes "\<not> setup_throws cam"
  shows "\<exists>more. setup_camera i cam st =
           Inr (fst st OR fst (ConfigureTrigger 0 (GetNodeMap cam) []), snd st @ more) \<and>
           \<not> list_ex is_spawn more"
proof -
  obtain r more where c: "ConfigureTrigger i (GetNodeMap cam) (snd st @ [CamInit i]) =
      (r, (snd st @ [CamInit i]) @ more)" and m: "\<not> list_ex is_spawn more"
    using ConfigureTrigger_trace by blast
  have r: "r = fst (ConfigureTrigger 0 (GetNodeMap cam) [])"
    using c ConfigureTrigger_result [of i "GetNodeMap cam" "snd st @ [CamInit i]"] by simp
  have i0: "init_fault cam = None" and b0: "begin_fault cam = None"
    using assms by (simp_all add: setup_throws_def)
  have "\<exists>more'. setup_camera i cam st = Inr (fst st OR r, snd st @ ([CamInit i] @ more @ more')) \<and>
                 \<not> list_ex is_spawn more'"
    using assms i0 b0 c
    by (auto simp: setup_camera_def and_then_def set_node_def is_spawn_def setup_throws_def
        split: option.splits)
  then obtain more' where
    "setup_camera i cam st = Inr (fst st OR r, snd st @ ([CamInit i] @ more @ more'))"
    and "\<not> list_ex is_spawn more'" by blast
  moreover from this have "\<not> list_ex is_spawn ([CamInit i] @ more @ more')"
    using m by (simp add: is_spawn_def)
  ultimately show ?thesis using r by blast
qed


lemma setup_loop_throws:
  assumes "list_ex setup_throws cams"
  shows "\<exists>what more. setup_loop i cams st = Inl (what, snd st @ more) \<and>
           \<not> list_ex is_spawn more"
  using assms
proof (induction cams arbitrary: i st)
  case Nil
  then show ?case by simp
next
  case (Cons cam cams)
  show ?case
  proof (cases "setup_throws cam")
    case True
    then obtain what more where "setup_camera i cam st = Inl (what, snd st @ more)"
      and "\<not> list_ex is_spawn more"
      using setup_camera_throws by blast
    then show ?thesis by (auto simp: and_then_def)
  next
    case False
    then obtain more where 1: "setup_camera i cam st =
        Inr (fst st OR fst (ConfigureTrigger 0 (GetNodeMap cam) []), snd st @ more)"
      and m: "\<not> list_ex is_spawn more"
      using setup_camera_ok by blast
    let ?st = "(fst st OR fst (ConfigureTrigger 0 (GetNodeMap cam) []), snd st @ more)"
    have "list_ex setup_throws cams" using Cons.prems False by simp
    then obtain what more' where 2: "setup_loop (Suc i) cams ?st = Inl (what, snd ?st @ more')"
      and m': "\<not> list_ex is_spawn more'"
      using Cons.IH by blast
    have "setup_loop i (cam # cams) st = Inl (what, snd st @ (more @ more'))"
      using 1 2 by (simp add: and_then_def)
    moreover have "\<not> list_ex is_spawn (more @ more')" using m m' by simp
    ultimately show ?thesis by blast
  qed
qed

lemma setup_loop_ok:
  assumes "\<not> list_ex setup_throws cams"
  shows "\<exists>r more. setup_loop i cams st = Inr (r, snd st @ more) \<and>
           \<not> list_ex is_spawn more \<and>
           (fst st = - 1 \<or> list_ex trigger_fails cams \<longrightarrow> r = - 1)"
  using assms
proof (induction cams arbitrary: i st)
  case Nil
  have "setup_loop i [] st = Inr (fst st, snd st @ [])" by simp
  moreover have "\<not> list_ex is_spawn []" by simp
  moreover have "\<not> list_ex trigger_fails []" by simp
  ultimately show ?case by blast
next
  case (Cons cam cams)
  obtain more where 1: "setup_camera i cam st =
      Inr (fst st OR fst (ConfigureTrigger 0 (GetNodeMap cam) []), snd st @ more)"
    and m: "\<not> list_ex is_spawn more"
  proof -
    have "\<not> setup_throws cam" using Cons.prems by simp
    then show ?thesis using setup_camera_ok that by blast
  qed
  let ?st = "(fst st OR fst (ConfigureTrigger 0 (GetNodeMap cam) []), snd st @ more)"
  have "\<not> list_ex setup_throws cams" using Cons.prems by simp
  then obtain r more' where 2: "setup_loop (Suc i) cams ?st = Inr (r, snd ?st @ more')"
    and m': "\<not> list_ex is_spawn more'"
    and r: "fst ?st = - 1 \<or> list_ex trigger_fails cams \<longrightarrow> r = - 1"
    using Cons.IH by blast
  have 3: "setup_loop i (cam # cams) st = Inr (r, snd st @ (more @ more'))"
    using 1 2 by (simp add: and_then_def)
  have 4: "\<not> list_ex is_spawn (more @ more')" using m m' by simp
  have "fst ?st = - 1" if "fst st = - 1 \<or> trigger_fails cam"
    using that by (auto simp: trigger_fails_def)
  then have 5: "fst st = - 1 \<or> list_ex trigger_fails (cam # cams) \<longrightarrow> r = - 1"
    using r by auto
  show ?case using 3 4 5 by blast
qed


lemma cleanup_loop_trace:
  "\<exists>more. (case cleanup_loop i cams tr of Inl (what, tr') \<Rightarrow> tr' | Inr tr' \<Rightarrow> tr') = tr @ more"
proof (induction cams arbitrary: i tr)
  case Nil
  then show ?case by simp
next
  case (Cons cam cams)
  show ?case
  proof (cases "end_fault cam")
    case (Some what)
    then show ?thesis by simp
  next
    case None
    show ?thesis
    proof (cases "deinit_fault cam")
      case (Some what)
      then show ?thesis using None by simp
    next
      case deinit: None
      obtain more where
        "(case cleanup_loop (Suc i) cams (tr @ [EndAcquisition i, DeInit i]) of
            Inl (what, tr') \<Rightarrow> tr' | Inr tr' \<Rightarrow> tr') = (tr @ [EndAcquisition i, DeInit i]) @ more"
        using Cons.IH by blast
      then show ?thesis using None deinit by simp
    qed
  qed
qed

lemma RunMultipleCameras_aborts:
  assumes "list_ex setup_throws camList"
  shows "\<exists>what more.
           RunMultipleCameras camList es tr =
             Some (- 1, tr @ more @ [Cout (''Error: '' @ what)],
                   replicate (length camList) SafeQueue_new) \<and>
           \<not> list_ex is_spawn more"
proof -
  let ?tr0 = "tr @ replicate (length camList) EmplaceQueue"
  obtain what more where 1: "setup_loop 0 camList (0, ?tr0) = Inl (what, snd (0::int, ?tr0) @ more)"
    and m: "\<not> list_ex is_spawn more"
    using setup_loop_throws [OF assms] by blast
  have "RunMultipleCameras camList es tr =
          Some (- 1, tr @ (replicate (length camList) EmplaceQueue @ more) @ [Cout (''Error: '' @ what)],
                replicate (length camList) SafeQueue_new)"
    using 1 by (simp add: RunMultipleCameras_def RunMultipleCameras_try_def Let_def)
  moreover have "\<not> list_ex is_spawn (replicate (length camList) EmplaceQueue @ more)"
    using m by (auto simp: list_ex_iff is_spawn_def)
  ultimately show ?thesis by blast
qed

lemma RunMultipleCameras_continues:
  assumes ok: "\<not> list_ex setup_throws camList"
  shows "(all_exited (run (length camList) es (init_sys (length camList))) \<longrightarrow>
            (\<exists>r tr' fq. RunMultipleCameras camList es tr = Some (r, tr', fq) \<and>
               (list_ex trigger_fails camList \<longrightarrow> r = - 1) \<and>
               set (map SpawnProducer [0..<length camList]) \<subseteq> set tr' \<and>
               SpawnDisplay (length camList) \<in> set tr')) \<and>
         (\<not> all_exited (run (length camList) es (init_sys (length camList))) \<longrightarrow>
            RunMultipleCameras camList es tr = None)"
proof -
  let ?n = "length camList"
  let ?tr0 = "tr @ replicate ?n EmplaceQueue"
  let ?s = "run ?n es (init_sys ?n)"
  obtain r more where 1: "setup_loop 0 camList (0, ?tr0) = Inr (r, snd (0::int, ?tr0) @ more)"
    and r: "fst (0::int, ?tr0) = - 1 \<or> list_ex trigger_fails camList \<longrightarrow> r = - 1"
    using setup_loop_ok [OF ok] by blast
  let ?tr2 = "(?tr0 @ more) @
              [Cout ''Press Enter to start synchronized video feeds (press 'q' to exit)...'', Getchar]
              @ map SpawnProducer [0..<?n] @ [SpawnDisplay ?n]"
  let ?tr3 = "?tr2 @ [JoinDisplay] @ map JoinProducer [0..<?n]"
  have none: "RunMultipleCameras camList es tr = None" if "\<not> all_exited ?s"
    using 1 that by (simp add: RunMultipleCameras_def RunMultipleCameras_try_def Let_def)
  have some: "\<exists>r' tr' fq. RunMultipleCameras camList es tr = Some (r', tr', fq) \<and>
               (list_ex trigger_fails camList \<longrightarrow> r' = - 1) \<and>
               set (map SpawnProducer [0..<?n]) \<subseteq> set tr' \<and> SpawnDisplay ?n \<in> set tr'"
    if ex: "all_exited ?s"
  proof -
    obtain more' where c: "(case cleanup_loop 0 camList ?tr3 of
          Inl (what, tr') \<Rightarrow> tr' | Inr tr' \<Rightarrow> tr') = ?tr3 @ more'"
      using cleanup_loop_trace by blast
    show ?thesis
    proof (cases "cleanup_loop 0 camList ?tr3")
      case (Inl x)
      obtain what tr' where x: "x = (what, tr')" by (cases x)
      have tr': "tr' = ?tr3 @ more'" using c Inl x by simp
      have "RunMultipleCameras camList es tr =
              Some (- 1, tr' @ [Cout (''Error: '' @ what)], frameQueues ?s)"
        using 1 ex Inl x by (simp add: RunMultipleCameras_def RunMultipleCameras_try_def Let_def)
      moreover have "set (map SpawnProducer [0..<?n]) \<subseteq> set (tr' @ [Cout (''Error: '' @ what)])"
        and "SpawnDisplay ?n \<in> set (tr' @ [Cout (''Error: '' @ what)])"
        by (auto simp: tr')
      ultimately show ?thesis by blast
    next
      case (Inr tr')
      have tr': "tr' = ?tr3 @ more'" using c Inr by simp
      have "RunMultipleCameras camList es tr = Some (r, tr', frameQueues ?s)"
        using 1 ex Inr by (simp add: RunMultipleCameras_def RunMultipleCameras_try_def Let_def)
      moreover have "set (map SpawnProducer [0..<?n]) \<subseteq> set tr'"
        and "SpawnDisplay ?n \<in> set tr'"
        by (auto simp: tr')
      ultimately show ?thesis using r by auto
    qed
  qed
  show ?thesis using none some by blast
qed


lemma to_string_small:
  "to_string_nat 0 = ''0''" "to_string_nat (Suc 0) = ''1''" "to_string_nat (Suc (Suc 0)) = ''2''"
  by (simp_all add: to_string_nat.simps [of 0] to_string_nat.simps [of "Suc 0"]
      to_string_nat.simps [of "Suc (Suc 0)"] digit_char_def)

text \<open>
  Claim C10.  With an empty camera list \<open>main\<close> returns -1 after exactly these actions:
  it obtains the system instance and the camera list, reports the count, clears the
  camera list, releases the system instance, prints two lines and waits for Enter.
  \<open>RunMultipleCameras\<close> is not called: no queue is created (\<open>frameQueues\<close> stays empty)
  and no thread is started.
\<close>

theorem main_no_cameras:
  "main [] es =
     Some (- 1,
           [GetInstance, GetCameras, Cout ''Number of cameras detected: 0'', CamListClear,
            ReleaseInstance, Cout ''No cameras detected!'', Cout ''Press Enter to exit...'',
            Getchar],
           []) \<and>
   filter (\<lambda>a. is_spawn a \<or> a = EmplaceQueue)
     [GetInstance, GetCameras, Cout ''Number of cameras detected: 0'', CamListClear,
      ReleaseInstance, Cout ''No cameras detected!'', Cout ''Press Enter to exit...'',
      Getchar] = []"
  by (simp add: main_def to_string_small is_spawn_def)

text \<open>
  What \<open>RunMultipleCameras\<close> and \<open>main\<close> do in general.  If for some camera \<open>Init\<close>, the
  setting of \<open>AcquisitionMode\<close> or \<open>BeginAcquisition\<close> throws, then whatever the schedule,
  \<open>RunMultipleCameras\<close> returns -1 after printing the error, having started no thread,
  with the queues as created; \<open>main\<close> then clears the camera list, releases the system
  instance and returns -1.  If no such call throws, the threads are started, also when
  \<open>ConfigureTrigger\<close> has reported failure for some camera; once the threads have
  returned the result is then -1, and while the threads have not all returned,
  \<open>RunMultipleCameras\<close> does not return.
\<close>

lemma setup_exception_aborts:
  "(list_ex setup_throws camList \<longrightarrow>
      (\<exists>what more.
          RunMultipleCameras camList es tr =
            Some (- 1, tr @ more @ [Cout (''Error: '' @ what)],
                  replicate (length camList) SafeQueue_new) \<and>
          \<not> list_ex is_spawn more) \<and>
      (\<exists>what more.
          main camList es =
            Some (- 1,
                  [GetInstance, GetCameras,
                   Cout (''Number of cameras detected: '' @ to_string_nat (length camList))] @
                  more @
                  [Cout (''Error: '' @ what), CamListClear, ReleaseInstance, Cout [],
                   Cout ''Press Enter to exit...'', Getchar],
                  replicate (length camList) SafeQueue_new) \<and>
          \<not> list_ex is_spawn more)) \<and>
   (\<not> list_ex setup_throws camList \<and>
    all_exited (run (length camList) es (init_sys (length camList))) \<longrightarrow>
      (\<exists>r tr' fq.
          RunMultipleCameras camList es tr = Some (r, tr', fq) \<and>
          (list_ex trigger_fails camList \<longrightarrow> r = - 1) \<and>
          set (map SpawnProducer [0..<length camList]) \<subseteq> set tr' \<and>
          SpawnDisplay (length camList) \<in> set tr')) \<and>
   (\<not> list_ex setup_throws camList \<and>
    \<not> all_exited (run (length camList) es (init_sys (length camList))) \<longrightarrow>
      RunMultipleCameras camList es tr = None)"
proof -
  have a: "\<exists>what more.
          RunMultipleCameras camList es tr =
            Some (- 1, tr @ more @ [Cout (''Error: '' @ what)],
                  replicate (length camList) SafeQueue_new) \<and>
          \<not> list_ex is_spawn more"
    if "list_ex setup_throws camList"
    using that by (rule RunMultipleCameras_aborts)
  have b: "\<exists>what more.
          main camList es =
            Some (- 1,
                  [GetInstance, GetCameras,
                   Cout (''Number of cameras detected: '' @ to_string_nat (length camList))] @
                  more @
                  [Cout (''Error: '' @ what), CamListClear, ReleaseInstance, Cout [],
                   Cout ''Press Enter to exit...'', Getchar],
                  replicate (length camList) SafeQueue_new) \<and>
          \<not> list_ex is_spawn more"
    if t: "list_ex setup_throws camList"
  proof -
    let ?pre = "[GetInstance, GetCameras,
                 Cout (''Number of cameras detected: '' @ to_string_nat (length camList))]"
    obtain what more where
      1: "RunMultipleCameras camList es ?pre =
            Some (- 1, ?pre @ more @ [Cout (''Error: '' @ what)],
                  replicate (length camList) SafeQueue_new)"
      and m: "\<not> list_ex is_spawn more"
      using RunMultipleCameras_aborts [OF t] by blast
    have "camList \<noteq> []" using t by auto
    then have "main camList es =
            Some (- 1, ?pre @ more @
                  [Cout (''Error: '' @ what), CamListClear, ReleaseInstance, Cout [],
                   Cout ''Press Enter to exit...'', Getchar],
                  replicate (length camList) SafeQueue_new)"
      using 1 by (simp add: main_def Let_def)
    then show ?thesis using m by blast
  qed
  show ?thesis using a b RunMultipleCameras_continues [of camList es tr] by blast
qed


lemmas life_eval =
  main_def RunMultipleCameras_def RunMultipleCameras_try_def setup_camera_def
  ConfigureTrigger_def ConfigureTrigger_try_def and_then_def set_node_def Let_def
  good_cam_def good_node_def no_init_cam_def no_trigger_cam_def to_string_small

lemma demo_exit_state:
  "all_exited (run 1 demo_exit (init_sys 1)) \<and>
   frameQueues (run 1 demo_exit (init_sys 1)) = [SafeQueue_new]"
  by (simp add: demo_exit_def demo_stop_def sys_eval all_exited_def)

lemma setup_throws_no_init: "list_ex setup_throws [good_cam, no_init_cam]"
  by (simp add: setup_throws_def no_init_cam_def good_cam_def)

lemma no_trigger_cam_facts:
  "\<not> list_ex setup_throws [no_trigger_cam] \<and> list_ex trigger_fails [no_trigger_cam] \<and>
   \<not> list_ex setup_throws [good_cam]"
  by (simp add: setup_throws_def trigger_fails_def life_eval)

lemma not_started_state: "\<not> all_exited (run 1 [] (init_sys 1))"
  by (simp add: sys_eval all_exited_def)

text \<open>
  Instances: the second of two cameras fails in \<open>Init\<close>; one camera whose trigger
  configuration fails and whose threads return; one camera whose threads never return.
\<close>

lemma setup_exception_aborts_example:
  "list_ex setup_throws [good_cam, no_init_cam] \<and>
   main [good_cam, no_init_cam] [] =
     Some (- 1,
           [GetInstance, GetCameras, Cout ''Number of cameras detected: 2'',
            EmplaceQueue, EmplaceQueue,
            CamInit 0, Cout [], Cout ''* CONFIGURING TRIGGER AND TIMESTAMP *'',
            NodeSet 0 ''TimestampEnabled'' ''true'', Cout ''Timestamp enabled...'',
            NodeSet 0 ''TriggerMode'' ''Off'', NodeSet 0 ''TriggerSelector'' ''FrameStart'',
            NodeSet 0 ''TriggerSource'' ''Software'', NodeSet 0 ''TriggerMode'' ''On'',
            Cout ''Trigger configured for software trigger...'',
            NodeSet 0 ''AcquisitionMode'' ''Continuous'', BeginAcquisition 0,
            Cout ''Error: no device'',
            CamListClear, ReleaseInstance, Cout [], Cout ''Press Enter to exit...'', Getchar],
           [SafeQueue_new, SafeQueue_new]) \<and>
   list_ex trigger_fails [no_trigger_cam] \<and>
   all_exited (run 1 demo_exit (init_sys 1)) \<and>
   (\<exists>tr fq. RunMultipleCameras [no_trigger_cam] demo_exit [] = Some (- 1, tr, fq) \<and>
      SpawnProducer 0 \<in> set tr \<and> SpawnDisplay 1 \<in> set tr) \<and>
   RunMultipleCameras [good_cam] [] [] = None"
proof -
  have a: "main [good_cam, no_init_cam] [] =
     Some (- 1,
           [GetInstance, GetCameras, Cout ''Number of cameras detected: 2'',
            EmplaceQueue, EmplaceQueue,
            CamInit 0, Cout [], Cout ''* CONFIGURING TRIGGER AND TIMESTAMP *'',
            NodeSet 0 ''TimestampEnabled'' ''true'', Cout ''Timestamp enabled...'',
            NodeSet 0 ''TriggerMode'' ''Off'', NodeSet 0 ''TriggerSelector'' ''FrameStart'',
            NodeSet 0 ''TriggerSource'' ''Software'', NodeSet 0 ''TriggerMode'' ''On'',
            Cout ''Trigger configured for software trigger...'',
            NodeSet 0 ''AcquisitionMode'' ''Continuous'', BeginAcquisition 0,
            Cout ''Error: no device'',
            CamListClear, ReleaseInstance, Cout [], Cout ''Press Enter to exit...'', Getchar],
           [SafeQueue_new, SafeQueue_new])"
    using setup_exception_aborts [of "[good_cam, no_init_cam]" "[]" "[]"] setup_throws_no_init
    by (simp add: life_eval numeral_2_eq_2)
  have b: "\<exists>tr fq. RunMultipleCameras [no_trigger_cam] demo_exit [] = Some (- 1, tr, fq) \<and>
      SpawnProducer 0 \<in> set tr \<and> SpawnDisplay 1 \<in> set tr"
    using setup_exception_aborts [of "[no_trigger_cam]" demo_exit "[]"] no_trigger_cam_facts
      demo_exit_state
    by auto
  have c: "RunMultipleCameras [good_cam] [] [] = None"
    using setup_exception_aborts [of "[good_cam]" "[]" "[]"] no_trigger_cam_facts not_started_state
    by simp
  show ?thesis using a b c setup_throws_no_init no_trigger_cam_facts demo_exit_state by blast
qed

text \<open>
  Claim C5.  The claim asks that a failed setup of any camera (device init, trigger or
  mode configuration, begin-capture) aborts the run before a thread is started, and
  that what was acquired so far is released in reverse order.  The code departs from
  it at two places, shown here by running \<open>main\<close>.

  \<^item> One camera whose \<open>TriggerMode\<close> node is not readable: \<open>ConfigureTrigger\<close> prints
    \<open>Unable to disable trigger mode (node retrieval). Aborting...\<close> and returns -1, but
    \<open>RunMultipleCameras\<close> only ORs that value into \<open>result\<close>
    (\<open>result |= ConfigureTrigger(nodeMap)\<close>) and goes on: acquisition begins, the
    producer and the display thread are started, and -1 is returned only after they
    have ended.

  \<^item> Two cameras, the second of which throws in \<open>Init\<close>: camera 0 has been initialised
    and has begun acquisition; the \<open>catch\<close> block prints the error and sets \<open>result\<close> to
    -1, and neither \<open>EndAcquisition\<close> nor \<open>DeInit\<close> is called for camera 0 before \<open>main\<close>
    clears the camera list and releases the system instance.  The normal path, shown
    last for one good camera, does call both in its loop \<open>// Clean up\<close>.
\<close>

theorem setup_failure_diverges:
  "ConfigureTrigger 0 (GetNodeMap no_trigger_cam) [] =
     (- 1,
      [Cout [], Cout ''* CONFIGURING TRIGGER AND TIMESTAMP *'',
       NodeSet 0 ''TimestampEnabled'' ''true'', Cout ''Timestamp enabled...'',
       Cout ''Unable to disable trigger mode (node retrieval). Aborting...'']) \<and>
   main [no_trigger_cam] demo_exit =
     Some (- 1,
           [GetInstance, GetCameras, Cout ''Number of cameras detected: 1'',
            EmplaceQueue,
            CamInit 0, Cout [], Cout ''* CONFIGURING TRIGGER AND TIMESTAMP *'',
            NodeSet 0 ''TimestampEnabled'' ''true'', Cout ''Timestamp enabled...'',
            Cout ''Unable to disable trigger mode (node retrieval). Aborting...'',
            NodeSet 0 ''AcquisitionMode'' ''Continuous'', BeginAcquisition 0,
            Cout ''Press Enter to start synchronized video feeds (press 'q' to exit)...'',
            Getchar, SpawnProducer 0, SpawnDisplay 1, JoinDisplay, JoinProducer 0,
            EndAcquisition 0, DeInit 0,
            CamListClear, ReleaseInstance, Cout [], Cout ''Press Enter to exit...'', Getchar],
           [SafeQueue_new]) \<and>
   main [good_cam, no_init_cam] [] =
     Some (- 1,
           [GetInstance, GetCameras, Cout ''Number of cameras detected: 2'',
            EmplaceQueue, EmplaceQueue,
            CamInit 0, Cout [], Cout ''* CONFIGURING TRIGGER AND TIMESTAMP *'',
            NodeSet 0 ''TimestampEnabled'' ''true'', Cout ''Timestamp enabled...'',
            NodeSet 0 ''TriggerMode'' ''Off'', NodeSet 0 ''TriggerSelector'' ''FrameStart'',
            NodeSet 0 ''TriggerSource'' ''Software'', NodeSet 0 ''TriggerMode'' ''On'',
            Cout ''Trigger configured for software trigger...'',
            NodeSet 0 ''AcquisitionMode'' ''Continuous'', BeginAcquisition 0,
            Cout ''Error: no device'',
            CamListClear, ReleaseInstance, Cout [], Cout ''Press Enter to exit...'', Getchar],
           [SafeQueue_new, SafeQueue_new]) \<and>
   main [good_cam] demo_exit =
     Some (0,
           [GetInstance, GetCameras, Cout ''Number of cameras detected: 1'',
            EmplaceQueue,
            CamInit 0, Cout [], Cout ''* CONFIGURING TRIGGER AND TIMESTAMP *'',
            NodeSet 0 ''TimestampEnabled'' ''true'', Cout ''Timestamp enabled...'',
            NodeSet 0 ''TriggerMode'' ''Off'', NodeSet 0 ''TriggerSelector'' ''FrameStart'',
            NodeSet 0 ''TriggerSource'' ''Software'', NodeSet 0 ''TriggerMode'' ''On'',
            Cout ''Trigger configured for software trigger...'',
            NodeSet 0 ''AcquisitionMode'' ''Continuous'', BeginAcquisition 0,
            Cout ''Press Enter to start synchronized video feeds (press 'q' to exit)...'',
            Getchar, SpawnProducer 0, SpawnDisplay 1, JoinDisplay, JoinProducer 0,
            EndAcquisition 0, DeInit 0,
            CamListClear, ReleaseInstance, Cout [], Cout ''Press Enter to exit...'', Getchar],
           [SafeQueue_new])"
proof -
  have a: "ConfigureTrigger 0 (GetNodeMap no_trigger_cam) [] =
     (- 1,
      [Cout [], Cout ''* CONFIGURING TRIGGER AND TIMESTAMP *'',
       NodeSet 0 ''TimestampEnabled'' ''true'', Cout ''Timestamp enabled...'',
       Cout ''Unable to disable trigger mode (node retrieval). Aborting...''])"
    by (simp add: life_eval)
  have b: "main [no_trigger_cam] demo_exit =
     Some (- 1,
           [GetInstance, GetCameras, Cout ''Number of cameras detected: 1'',
            EmplaceQueue,
            CamInit 0, Cout [], Cout ''* CONFIGURING TRIGGER AND TIMESTAMP *'',
            NodeSet 0 ''TimestampEnabled'' ''true'', Cout ''Timestamp enabled...'',
            Cout ''Unable to disable trigger mode (node retrieval). Aborting...'',
            NodeSet 0 ''AcquisitionMode'' ''Continuous'', BeginAcquisition 0,
            Cout ''Press Enter to start synchronized video feeds (press 'q' to exit)...'',
            Getchar, SpawnProducer 0, SpawnDisplay 1, JoinDisplay, JoinProducer 0,
            EndAcquisition 0, DeInit 0,
            CamListClear, ReleaseInstance, Cout [], Cout ''Press Enter to exit...'', Getchar],
           [SafeQueue_new])"
    using demo_exit_state by (simp add: life_eval)
  have c: "main [good_cam, no_init_cam] [] =
     Some (- 1,
           [GetInstance, GetCameras, Cout ''Number of cameras detected: 2'',
            EmplaceQueue, EmplaceQueue,
            CamInit 0, Cout [], Cout ''* CONFIGURING TRIGGER AND TIMESTAMP *'',
            NodeSet 0 ''TimestampEnabled'' ''true'', Cout ''Timestamp enabled...'',
            NodeSet 0 ''TriggerMode'' ''Off'', NodeSet 0 ''TriggerSelector'' ''FrameStart'',
            NodeSet 0 ''TriggerSource'' ''Software'', NodeSet 0 ''TriggerMode'' ''On'',
            Cout ''Trigger configured for software trigger...'',
            NodeSet 0 ''AcquisitionMode'' ''Continuous'', BeginAcquisition 0,
            Cout ''Error: no device'',
            CamListClear, ReleaseInstance, Cout [], Cout ''Press Enter to exit...'', Getchar],
           [SafeQueue_new, SafeQueue_new])"
    by (simp add: life_eval numeral_2_eq_2)
  have d: "main [good_cam] demo_exit =
     Some (0,
           [GetInstance, GetCameras, Cout ''Number of cameras detected: 1'',
            EmplaceQueue,
            CamInit 0, Cout [], Cout ''* CONFIGURING TRIGGER AND TIMESTAMP *'',
            NodeSet 0 ''TimestampEnabled'' ''true'', Cout ''Timestamp enabled...'',
            NodeSet 0 ''TriggerMode'' ''Off'', NodeSet 0 ''TriggerSelector'' ''FrameStart'',
            NodeSet 0 ''TriggerSource'' ''Software'', NodeSet 0 ''TriggerMode'' ''On'',
            Cout ''Trigger configured for software trigger...'',
            NodeSet 0 ''AcquisitionMode'' ''Continuous'', BeginAcquisition 0,
            Cout ''Press Enter to start synchronized video feeds (press 'q' to exit)...'',
            Getchar, SpawnProducer 0, SpawnDisplay 1, JoinDisplay, JoinProducer 0,
            EndAcquisition 0, DeInit 0,
            CamListClear, ReleaseInstance, Cout [], Cout ''Press Enter to exit...'', Getchar],
           [SafeQueue_new])"
    using demo_exit_state by (simp add: life_eval)
  show ?thesis using a b c d by blast
qed

end
